theory Spec2Isabelle
  imports Complex_Main "HOL-Library.Monad_Syntax"
begin

section \<open>Arrays and the tensor primitives\<close>

text \<open>
  The two source files are \<^verbatim>\<open>chainer/functions/loss/crf1d.py\<close> (the linear-chain CRF
  loss \<^verbatim>\<open>crf1d\<close> and its decoder \<^verbatim>\<open>crf1d_viterbi\<close>) and
  \<^verbatim>\<open>chainer/trainer/updater.py\<close> (the classes \<^verbatim>\<open>Updater\<close> and
  \<^verbatim>\<open>StandardUpdater\<close>).

  An array is a nested list, outermost axis first: a vector of shape \<open>(B,)\<close> is a list of
  length \<open>B\<close>, a matrix of shape \<open>(B, L)\<close> a list of \<open>B\<close> rows of length \<open>L\<close>, a cube of
  shape \<open>(B, L, M)\<close> a list of \<open>B\<close> matrices. A \<^verbatim>\<open>Variable\<close> of the CRF code is
  identified with the array it wraps (\<^verbatim>\<open>v.data\<close>). Array entries are real numbers in
  the loss and any linearly ordered type with addition in the decoder; label indices are
  natural numbers. A primitive that raises returns \<open>None\<close>.
\<close>

type_synonym 'a vector = "'a list"
type_synonym 'a matrix = "'a list list"
type_synonym 'a cube = "'a list list list"

text \<open>
  The variable \<^verbatim>\<open>cost\<close> of \<^verbatim>\<open>crf1d_viterbi\<close> holds a two-dimensional array on
  entry and is assigned a three-dimensional one inside the loop (line 41), so the value
  it holds is one of the two.
\<close>

datatype 'a ndarray = Array2 "'a matrix" | Array3 "'a cube"

definition is_vector :: "nat \<Rightarrow> 'a vector \<Rightarrow> bool" where
  "is_vector B v = (length v = B)"

definition is_matrix :: "nat \<Rightarrow> nat \<Rightarrow> 'a matrix \<Rightarrow> bool" where
  "is_matrix B L m = (length m = B \<and> list_all (\<lambda>row. length row = L) m)"

definition is_cube :: "nat \<Rightarrow> nat \<Rightarrow> nat \<Rightarrow> 'a cube \<Rightarrow> bool" where
  "is_cube B L M c = (length c = B \<and> list_all (is_matrix L M) c)"

definition labels_below :: "nat \<Rightarrow> nat vector \<Rightarrow> bool" where
  "labels_below L y = list_all (\<lambda>l. l < L) y"

definition unzip :: "('a \<times> 'b) list \<Rightarrow> 'a list \<times> 'b list" where
  "unzip ps = (map fst ps, map snd ps)"

definition elementwise :: "('a \<Rightarrow> 'b \<Rightarrow> 'c option) \<Rightarrow> 'a list \<Rightarrow> 'b list \<Rightarrow> 'c list option" where
  \<comment> \<open>Modelled from the spec: an elementwise binary operation along one axis (the
     primitives are not among the source files); the two extents must agree, a
     mismatch is the dimension-mismatch error of section 7.\<close>
  "elementwise f xs ys =
     (if length xs = length ys then those (map2 f xs ys) else None)"

definition add1 :: "'a::plus vector \<Rightarrow> 'a vector \<Rightarrow> 'a vector option" where
  \<comment> \<open>Modelled from the spec: elementwise add (\<^verbatim>\<open>+\<close> on variables) of two vectors.\<close>
  "add1 = elementwise (\<lambda>a b. Some (a + b))"

definition add2 :: "'a::plus matrix \<Rightarrow> 'a matrix \<Rightarrow> 'a matrix option" where
  \<comment> \<open>Modelled from the spec: elementwise add of two matrices.\<close>
  "add2 = elementwise add1"

definition add3 :: "'a::plus cube \<Rightarrow> 'a cube \<Rightarrow> 'a cube option" where
  \<comment> \<open>Modelled from the spec: elementwise add of two cubes.\<close>
  "add3 = elementwise add2"

fun chunks :: "nat \<Rightarrow> nat \<Rightarrow> 'a list \<Rightarrow> 'a list list" where
  "chunks 0 n xs = []"
| "chunks (Suc k) n xs = take n xs # chunks k n (drop n xs)"

definition reshape3 :: "'a matrix \<Rightarrow> nat \<times> nat \<times> nat \<Rightarrow> 'a cube option" where
  \<comment> \<open>Modelled from the spec: \<^verbatim>\<open>reshape.reshape(m, (a, b, c))\<close>, the entries in row-major
     order under a new shape of the same size.\<close>
  "reshape3 m shp =
     (case shp of (a, b, c) \<Rightarrow>
        if length (concat m) = a * b * c
        then Some (chunks a b (chunks (a * b) c (concat m))) else None)"

definition reshape2 :: "'a matrix \<Rightarrow> nat \<times> nat \<Rightarrow> 'a matrix option" where
  \<comment> \<open>Modelled from the spec: \<^verbatim>\<open>reshape.reshape(m, (a, b))\<close>.\<close>
  "reshape2 m shp =
     (case shp of (a, b) \<Rightarrow>
        if length (concat m) = a * b then Some (chunks a b (concat m)) else None)"

definition reshape1 :: "'a matrix \<Rightarrow> nat \<Rightarrow> 'a vector option" where
  \<comment> \<open>Modelled from the spec: \<^verbatim>\<open>reshape.reshape(m, (a,))\<close>.\<close>
  "reshape1 m a = (if length (concat m) = a then Some (concat m) else None)"

definition bcast_axis ::
    "('a \<Rightarrow> 'b \<Rightarrow> ('c \<times> 'd) option) \<Rightarrow> 'a list \<Rightarrow> 'b list \<Rightarrow> ('c list \<times> 'd list) option" where
  \<comment> \<open>Modelled from the spec: broadcasting along one axis. Equal extents are paired
     off, an axis of extent one is repeated along the other, anything else is a
     dimension mismatch.\<close>
  "bcast_axis f xs ys =
     map_option unzip
       (if length xs = length ys then those (map2 f xs ys)
        else if length xs = 1 then those (map (f (hd xs)) ys)
        else if length ys = 1 then those (map (\<lambda>x. f x (hd ys)) xs)
        else None)"

definition broadcast3 :: "'a cube \<Rightarrow> 'b cube \<Rightarrow> ('a cube \<times> 'b cube) option" where
  "broadcast3 = bcast_axis (bcast_axis (bcast_axis (\<lambda>x y. Some (x, y))))"

fun broadcast :: "'a cube \<Rightarrow> 'b ndarray \<Rightarrow> ('a cube \<times> 'b cube) option" where
  \<comment> \<open>Modelled from the spec: \<^verbatim>\<open>broadcast.broadcast(a, c)\<close> for a three-dimensional
     \<open>a\<close>; a two-dimensional \<open>c\<close> first gets a leading axis of extent one.\<close>
  "broadcast a (Array2 m) = broadcast3 a [m]"
| "broadcast a (Array3 c) = broadcast3 a c"

definition reduce_axis1_2 :: "('a list \<Rightarrow> 'b option) \<Rightarrow> 'a matrix \<Rightarrow> 'b vector option" where
  \<comment> \<open>Modelled from the spec: a reduction of a matrix over axis 1 (the label axis).\<close>
  "reduce_axis1_2 f m = those (map f m)"

definition reduce_axis1_3 :: "('a list \<Rightarrow> 'b option) \<Rightarrow> 'a cube \<Rightarrow> 'b matrix option" where
  \<comment> \<open>Modelled from the spec: a reduction of a cube over axis 1 (the previous-label
     axis): entry \<open>[b][j]\<close> of the result reduces the entries \<open>[b][i][j]\<close> over \<open>i\<close>.\<close>
  "reduce_axis1_3 f c =
     those (map (\<lambda>plane. if plane = [] then None else those (map f (transpose plane))) c)"

definition lse :: "real list \<Rightarrow> real" where
  \<comment> \<open>Modelled from the spec: log-sum-exp, \<open>log (\<Sum> exp x\<^sub>i)\<close>, over the reals.\<close>
  "lse xs = ln (sum_list (map exp xs))"

definition logsumexp_list :: "real list \<Rightarrow> real option" where
  \<comment> \<open>Modelled from the spec: the log-sum-exp reduction of one axis; an empty axis has
     no maximum to subtract and raises.\<close>
  "logsumexp_list xs = (if xs = [] then None else Some (lse xs))"

definition max_list :: "'a::linorder list \<Rightarrow> 'a option" where
  \<comment> \<open>Modelled from the spec: max-reduce; an empty axis raises.\<close>
  "max_list xs = (if xs = [] then None else Some (Max (set xs)))"

definition first_max :: "'a::linorder list \<Rightarrow> nat" where
  \<comment> \<open>Modelled from the spec: the index of the first occurrence of the maximum.\<close>
  "first_max xs = length (takeWhile (\<lambda>v. v \<noteq> Max (set xs)) xs)"

definition argmax_list :: "'a::linorder list \<Rightarrow> nat option" where
  \<comment> \<open>Modelled from the spec: argmax-reduce, the index of the first occurrence of the
     maximum; an empty axis raises.\<close>
  "argmax_list xs = (if xs = [] then None else Some (first_max xs))"

definition logsumexp2 :: "real matrix \<Rightarrow> real vector option" where
  "logsumexp2 = reduce_axis1_2 logsumexp_list"

definition logsumexp3 :: "real cube \<Rightarrow> real matrix option" where
  "logsumexp3 = reduce_axis1_3 logsumexp_list"

definition argmax2 :: "'a::linorder matrix \<Rightarrow> nat vector option" where
  "argmax2 = reduce_axis1_2 argmax_list"

definition argmax3 :: "'a::linorder cube \<Rightarrow> nat matrix option" where
  "argmax3 = reduce_axis1_3 argmax_list"

definition max3 :: "'a::linorder cube \<Rightarrow> 'a matrix option" where
  "max3 = reduce_axis1_3 max_list"

definition embed_id :: "nat vector \<Rightarrow> 'a matrix \<Rightarrow> 'a matrix option" where
  \<comment> \<open>Modelled from the spec: \<^verbatim>\<open>embed_id.embed_id(ids, W)\<close>, lookup by id: row
     \<open>ids[b]\<close> of \<open>W\<close> for every \<open>b\<close>; an id past the last row raises.\<close>
  "embed_id ids W = those (map (\<lambda>i. if i < length W then Some (W ! i) else None) ids)"

definition select_item :: "'a matrix \<Rightarrow> nat vector \<Rightarrow> 'a vector option" where
  \<comment> \<open>Modelled from the spec: \<^verbatim>\<open>select_item.select_item(x, t)\<close>, the entry
     \<open>x[b][t[b]]\<close> for every \<open>b\<close>.\<close>
  "select_item = elementwise (\<lambda>row l. if l < length row then Some (row ! l) else None)"

definition flat_index :: "nat \<Rightarrow> nat vector \<Rightarrow> nat vector \<Rightarrow> nat vector option" where
  \<comment> \<open>The expression \<^verbatim>\<open>y1 * n_label + y2\<close> on two label vectors.\<close>
  "flat_index n_label = elementwise (\<lambda>a b. Some (a * n_label + b))"

definition index_rows :: "'a matrix \<Rightarrow> nat vector \<Rightarrow> 'a vector option" where
  \<comment> \<open>The indexing \<^verbatim>\<open>m.data[range(len(inds)), inds]\<close>: entry \<open>m[k][inds[k]]\<close> for
     every \<open>k < len(inds)\<close>, IndexError when out of range.\<close>
  "index_rows m inds =
     those (map (\<lambda>k. if k < length m \<and> inds ! k < length (m ! k)
                      then Some (m ! k ! (inds ! k)) else None) [0..<length inds])"

section \<open>The loss \<^verbatim>\<open>crf1d\<close>\<close>

text \<open>The loop of lines 14 to 17 over \<^verbatim>\<open>xs[1:]\<close>, with \<^verbatim>\<open>alpha\<close> as its state.\<close>

fun crf1d_forward ::
    "nat \<Rightarrow> nat \<Rightarrow> real matrix \<Rightarrow> real matrix \<Rightarrow> real matrix list \<Rightarrow> real matrix option" where
  "crf1d_forward n_batch n_label cost alpha [] = Some alpha"
| "crf1d_forward n_batch n_label cost alpha (x # xs) =
     do {
       r \<leftarrow> reshape3 alpha (n_batch, n_label, 1);
       (b_alpha, b_cost) \<leftarrow> broadcast r (Array2 cost);
       s \<leftarrow> add3 b_alpha b_cost;
       l \<leftarrow> logsumexp3 s;
       alpha' \<leftarrow> add2 l x;
       crf1d_forward n_batch n_label cost alpha' xs
     }"

text \<open>
  The variable \<^verbatim>\<open>score\<close> starts as the Python integer 0 (line 21) and is a vector
  after the first \<^verbatim>\<open>+=\<close>.
\<close>

datatype 'a score = Scalar 'a | Vector "'a vector"

fun score_add :: "real score \<Rightarrow> real vector \<Rightarrow> real vector option" where
  "score_add (Scalar c) v = Some (map (\<lambda>a. a + c) v)"
| "score_add (Vector u) v = add1 u v"

fun score_sub :: "real vector \<Rightarrow> real score \<Rightarrow> real vector option" where
  "score_sub v (Scalar c) = Some (map (\<lambda>a. a - c) v)"
| "score_sub v (Vector u) = elementwise (\<lambda>a b. Some (a - b)) v u"

text \<open>The loop of lines 23 to 25 over \<^verbatim>\<open>zip(ys[:-1], ys[1:])\<close>.\<close>

fun score_transitions ::
    "nat \<Rightarrow> nat \<Rightarrow> real matrix \<Rightarrow> real score \<Rightarrow> (nat vector \<times> nat vector) list \<Rightarrow> real score option" where
  "score_transitions n_batch n_label cost score [] = Some score"
| "score_transitions n_batch n_label cost score ((y1, y2) # ps) =
     do {
       ids \<leftarrow> flat_index n_label y1 y2;
       e \<leftarrow> embed_id ids cost;
       r \<leftarrow> reshape1 e n_batch;
       s \<leftarrow> score_add score r;
       score_transitions n_batch n_label cost (Vector s) ps
     }"

text \<open>The loop of lines 26 and 27 over \<^verbatim>\<open>zip(xs, ys)\<close>.\<close>

fun score_emissions :: "real score \<Rightarrow> (real matrix \<times> nat vector) list \<Rightarrow> real score option" where
  "score_emissions score [] = Some score"
| "score_emissions score ((x, y) # ps) =
     do {
       v \<leftarrow> select_item x y;
       s \<leftarrow> score_add score v;
       score_emissions (Vector s) ps
     }"

definition crf1d :: "real matrix \<Rightarrow> real matrix list \<Rightarrow> nat vector list \<Rightarrow> real vector option" where
  "crf1d cost xs ys =
     (case xs of
        [] \<Rightarrow> None
      | x0 # rest \<Rightarrow>
          do {
            let n_label = length cost;
            let n_batch = length x0;
            alpha \<leftarrow> crf1d_forward n_batch n_label cost x0 rest;
            logz \<leftarrow> logsumexp2 alpha;
            cost' \<leftarrow> reshape2 cost (length (concat cost), 1);
            score \<leftarrow> score_transitions n_batch n_label cost' (Scalar 0) (zip (butlast ys) (tl ys));
            score' \<leftarrow> score_emissions score (zip xs ys);
            score_sub logz score'
          })"

section \<open>The decoder \<^verbatim>\<open>crf1d_viterbi\<close>\<close>

text \<open>
  The loop of lines 38 to 44 over \<^verbatim>\<open>xs[1:]\<close>. Its state is \<^verbatim>\<open>alpha\<close>,
  \<^verbatim>\<open>max_inds\<close> and, because line 41 assigns to it, \<^verbatim>\<open>cost\<close>.
\<close>

fun viterbi_forward ::
    "nat \<Rightarrow> nat \<Rightarrow> 'a::{linorder,plus} matrix \<Rightarrow> 'a ndarray \<Rightarrow> nat matrix list \<Rightarrow> 'a matrix list
      \<Rightarrow> ('a matrix \<times> 'a ndarray \<times> nat matrix list) option" where
  "viterbi_forward n_batch n_label alpha cost max_inds [] = Some (alpha, cost, max_inds)"
| "viterbi_forward n_batch n_label alpha cost max_inds (x # xs) =
     do {
       r \<leftarrow> reshape3 alpha (n_batch, n_label, 1);
       (b_alpha, b_cost) \<leftarrow> broadcast r cost;
       cost' \<leftarrow> add3 b_alpha b_cost;
       max_ind \<leftarrow> argmax3 cost';
       m \<leftarrow> max3 cost';
       alpha' \<leftarrow> add2 m x;
       viterbi_forward n_batch n_label alpha' (Array3 cost') (max_inds @ [max_ind]) xs
     }"

text \<open>The loop of lines 48 to 50 over \<^verbatim>\<open>reversed(max_inds)\<close>.\<close>

fun backtrace :: "nat vector \<Rightarrow> nat vector list \<Rightarrow> nat matrix list \<Rightarrow> nat vector list option" where
  "backtrace inds path [] = Some path"
| "backtrace inds path (m # ms) =
     do {
       inds' \<leftarrow> index_rows m inds;
       backtrace inds' (path @ [inds']) ms
     }"

definition crf1d_viterbi ::
    "'a::{linorder,plus} matrix \<Rightarrow> 'a matrix list \<Rightarrow> ('a matrix \<times> nat vector list) option" where
  "crf1d_viterbi cost xs =
     (case xs of
        [] \<Rightarrow> None
      | x0 # rest \<Rightarrow>
          do {
            let n_label = length cost;
            let n_batch = length x0;
            (alpha, cost', max_inds) \<leftarrow> viterbi_forward n_batch n_label x0 (Array2 cost) [] rest;
            inds \<leftarrow> argmax2 alpha;
            path \<leftarrow> backtrace inds [inds] (rev max_inds);
            Some (alpha, rev path)
          })"

section \<open>The updaters of \<^verbatim>\<open>chainer/trainer/updater.py\<close>\<close>

text \<open>
  \<^verbatim>\<open>inputs\<close> is whatever the batch iterator yields: a tuple of raw arrays or any
  other single object; \<^verbatim>\<open>isinstance(inputs, tuple)\<close> tells them apart.
  \<^verbatim>\<open>variable.Variable(a)\<close> wraps a raw value; its field \<^verbatim>\<open>data\<close> reads it back.
\<close>

datatype 'v inputs = Tuple "'v list" | NonTuple 'v

datatype 'v variable = Variable (data: 'v)

text \<open>
  The target link is read through its \<^verbatim>\<open>__dict__\<close>: the attributes held directly on
  it, in iteration order, under distinct names. An attribute is a \<^verbatim>\<open>Variable\<close> (given
  by the elements of its data array, whose \<^verbatim>\<open>size\<close> is their number), a child
  link with a \<^verbatim>\<open>__dict__\<close> of its own, or any other object.
\<close>

datatype 'n attr = VariableAttr "'n list" | LinkAttr "(string \<times> 'n attr) list" | OtherAttr

type_synonym 'n link = "(string \<times> 'n attr) list"

text \<open>
  The loss function handed to the optimizer is the target object itself or the function
  the updater was constructed with.
\<close>

datatype 'f lossfun = Target | Function 'f

datatype py_error = NotImplementedError

record ('f, 'v, 'n) optimizer =
  target :: "'n link"
  update_calls :: "('f lossfun \<times> 'v variable list) list"

definition optimizer_update ::
    "('f lossfun \<Rightarrow> 'v variable list \<Rightarrow> 'n link \<Rightarrow> 'n link)
      \<Rightarrow> 'f lossfun \<Rightarrow> 'v variable list \<Rightarrow> ('f, 'v, 'n) optimizer \<Rightarrow> ('f, 'v, 'n) optimizer" where
  \<comment> \<open>Modelled from the spec: \<^verbatim>\<open>optimizer.update(lossfun, *args)\<close> computes
     \<^verbatim>\<open>lossfun(*args)\<close> and applies one gradient step. The optimizer is not among
     the source files: what a step does to the target is the parameter \<open>step\<close>, and
     every call is recorded in \<open>update_calls\<close>.\<close>
  "optimizer_update step lossfun args opt =
     opt\<lparr>target := step lossfun args (target opt),
         update_calls := update_calls opt @ [(lossfun, args)]\<rparr>"

text \<open>The base class: \<^verbatim>\<open>__call__\<close> raises, \<^verbatim>\<open>serialize\<close> is \<^verbatim>\<open>pass\<close>.\<close>

definition Updater_call :: "'v inputs \<Rightarrow> 'o \<Rightarrow> (py_error + (string \<rightharpoonup> 'n list)) \<times> 'o" where
  "Updater_call inputs optimizer = (Inl NotImplementedError, optimizer)"

definition Updater_serialize :: "'s \<Rightarrow> (py_error + unit) \<times> 's" where
  "Updater_serialize serializer = (Inr (), serializer)"

text \<open>\<^verbatim>\<open>StandardUpdater\<close>: the object holds the field \<^verbatim>\<open>_lossfun\<close>.\<close>

record 'f StandardUpdater =
  lossfun :: "'f option"

definition StandardUpdater_init :: "'f option \<Rightarrow> 'f StandardUpdater" where
  "StandardUpdater_init lf = \<lparr>lossfun = lf\<rparr>"

text \<open>The loop of lines 88 to 92 over the items of \<^verbatim>\<open>optimizer.target.__dict__\<close>.\<close>

fun collect_result :: "'n link \<Rightarrow> (string \<rightharpoonup> 'n list) \<Rightarrow> (string \<rightharpoonup> 'n list)" where
  "collect_result [] result = result"
| "collect_result ((name, value) # items) result =
     (case value of
        VariableAttr x \<Rightarrow>
          if length x = 1 then collect_result items (result(name \<mapsto> x))
          else collect_result items result
      | _ \<Rightarrow> collect_result items result)"

definition StandardUpdater_call ::
    "('f lossfun \<Rightarrow> 'v variable list \<Rightarrow> 'n link \<Rightarrow> 'n link)
      \<Rightarrow> 'f StandardUpdater \<Rightarrow> 'v inputs \<Rightarrow> ('f, 'v, 'n) optimizer
      \<Rightarrow> (string \<rightharpoonup> 'n list) \<times> ('f, 'v, 'n) optimizer" where
  "StandardUpdater_call step self inputs optimizer =
     (let inputs' = (case inputs of Tuple as \<Rightarrow> as | NonTuple a \<Rightarrow> [a]);
          in_vars = map Variable inputs';
          lf = (case lossfun self of None \<Rightarrow> Target | Some f \<Rightarrow> Function f);
          optimizer' = optimizer_update step lf in_vars optimizer
      in (collect_result (target optimizer') Map.empty, optimizer'))"

section \<open>The properties as the specification words them\<close>

text \<open>
  The score of a label sequence \<open>y\<close> for batch item \<open>b\<close>: the transition costs
  \<open>cost[y\<^sub>t][y\<^sub>t\<^sub>+\<^sub>1]\<close> over consecutive positions plus the emission scores
  \<open>xs[t][b][y\<^sub>t]\<close> over all positions.
\<close>

definition path_score :: "'a::monoid_add matrix \<Rightarrow> 'a matrix list \<Rightarrow> nat \<Rightarrow> nat list \<Rightarrow> 'a" where
  "path_score cost xs b y =
     sum_list (map (\<lambda>t. cost ! (y ! t) ! (y ! Suc t)) [0..<length xs - 1])
   + sum_list (map (\<lambda>t. xs ! t ! b ! (y ! t)) [0..<length xs])"

text \<open>
  The additive tensor of a decoding step as section 4.2 describes it: entry
  \<open>[b][i][j]\<close> is \<open>alpha[b][i] + cost[i][j]\<close>, for the transition cost matrix.
\<close>

definition step_tensor :: "'a::plus matrix \<Rightarrow> 'a matrix \<Rightarrow> 'a cube" where
  "step_tensor alpha cost =
     map (\<lambda>b. map (\<lambda>i. map (\<lambda>j. alpha ! b ! i + cost ! i ! j) [0..<length cost])
       [0..<length cost]) [0..<length alpha]"

section \<open>The loop bodies in closed form\<close>

text \<open>
  On arrays of the right shapes no primitive raises, and one pass through the loop body
  of \<^verbatim>\<open>crf1d_viterbi\<close> computes the following: the tensor assigned to
  \<^verbatim>\<open>cost\<close>, the backpointers appended to \<^verbatim>\<open>max_inds\<close>, and the new
  \<^verbatim>\<open>alpha\<close>. They are proved equal to the loop body below.
\<close>

definition outer_add :: "'a::plus vector \<Rightarrow> 'a matrix \<Rightarrow> 'a matrix" where
  "outer_add arow plane = map2 (\<lambda>a crow. map (\<lambda>v. a + v) crow) arow plane"

definition next_cost :: "'a::plus matrix \<Rightarrow> 'a cube \<Rightarrow> 'a cube" where
  "next_cost alpha c = map2 outer_add alpha c"

definition next_max_ind :: "'a::{linorder,plus} matrix \<Rightarrow> 'a cube \<Rightarrow> nat matrix" where
  "next_max_ind alpha c = map (\<lambda>plane. map first_max (transpose plane)) (next_cost alpha c)"

definition next_alpha :: "'a::{linorder,plus} matrix \<Rightarrow> 'a cube \<Rightarrow> 'a matrix \<Rightarrow> 'a matrix" where
  "next_alpha alpha c x =
     map2 (map2 (+)) (map (\<lambda>plane. map (\<lambda>col. Max (set col)) (transpose plane)) (next_cost alpha c)) x"

text \<open>
  The forward pass and the backward trace of \<^verbatim>\<open>crf1d_viterbi\<close> as total functions:
  \<open>viterbi_run\<close> iterates the closed form of the loop body, \<open>trace_back\<close> follows the
  backpointers, \<open>viterbi_decode\<close> puts them together. They are proved equal to the
  source's loops on arrays of the right shapes.
\<close>

fun viterbi_run ::
    "'a::{linorder,plus} matrix \<Rightarrow> 'a cube \<Rightarrow> nat matrix list \<Rightarrow> 'a matrix list
      \<Rightarrow> 'a matrix \<times> 'a cube \<times> nat matrix list" where
  "viterbi_run alpha c max_inds [] = (alpha, c, max_inds)"
| "viterbi_run alpha c max_inds (x # xs) =
     viterbi_run (next_alpha alpha c x) (next_cost alpha c) (max_inds @ [next_max_ind alpha c]) xs"

fun trace_back :: "nat vector \<Rightarrow> nat matrix list \<Rightarrow> nat vector list" where
  "trace_back inds [] = []"
| "trace_back inds (m # ms) =
     (let inds' = map2 (\<lambda>row k. row ! k) m inds in inds' # trace_back inds' ms)"

definition viterbi_decode ::
    "'a::{linorder,plus} matrix \<Rightarrow> 'a matrix \<Rightarrow> 'a matrix list \<Rightarrow> 'a matrix \<times> nat vector list" where
  "viterbi_decode cost x0 rest =
     (case viterbi_run x0 (replicate (length x0) cost) [] rest of
        (alpha, c, max_inds) \<Rightarrow>
          (alpha, rev (map first_max alpha # trace_back (map first_max alpha) (rev max_inds))))"

text \<open>A backpointer table: shape \<open>(B, L)\<close>, every entry a label index below \<open>L\<close>.\<close>

definition backpointers :: "nat \<Rightarrow> nat \<Rightarrow> nat matrix \<Rightarrow> bool" where
  "backpointers B L m = (is_matrix B L m \<and> list_all (labels_below L) m)"


text \<open>
  The forward recurrence as section 4.1 states it, started from \<open>xs[0]\<close>:
  \<open>alpha\<^sub>t[b][j] = logsumexp\<^sub>i (alpha\<^sub>t\<^sub>-\<^sub>1[b][i] + cost[i][j]) + x\<^sub>t[b][j]\<close>, and the log
  partition function \<open>logZ[b] = logsumexp\<^sub>l alpha[b][l]\<close> of the last \<open>alpha\<close>.
\<close>

fun alpha_spec :: "real matrix \<Rightarrow> real matrix list \<Rightarrow> nat \<Rightarrow> nat \<Rightarrow> nat \<Rightarrow> real" where
  "alpha_spec cost xs 0 b j = xs ! 0 ! b ! j"
| "alpha_spec cost xs (Suc t) b j =
     lse (map (\<lambda>i. alpha_spec cost xs t b i + cost ! i ! j) [0..<length cost]) + xs ! Suc t ! b ! j"

definition logZ_spec :: "real matrix \<Rightarrow> real matrix list \<Rightarrow> nat \<Rightarrow> real" where
  "logZ_spec cost xs b = lse (map (alpha_spec cost xs (length xs - 1) b) [0..<length cost])"

text \<open>The matrix of shape \<open>(B, L)\<close> with entry \<open>f b j\<close> at \<open>[b][j]\<close>.\<close>

definition matrix_of :: "nat \<Rightarrow> nat \<Rightarrow> (nat \<Rightarrow> nat \<Rightarrow> 'a) \<Rightarrow> 'a matrix" where
  "matrix_of B L f = map (\<lambda>b. map (f b) [0..<L]) [0..<B]"

text \<open>One pass through the loop body of \<^verbatim>\<open>crf1d\<close> (lines 15 to 17), in closed form.\<close>

definition next_logalpha :: "real matrix \<Rightarrow> real matrix \<Rightarrow> real matrix \<Rightarrow> real matrix" where
  "next_logalpha cost alpha x =
     map2 (map2 (+))
       (map (\<lambda>plane. map lse (transpose plane)) (next_cost alpha (replicate (length alpha) cost))) x"

text \<open>
  The value \<^verbatim>\<open>score\<close> holds for batch item \<open>b\<close>, and whether it can be added to a
  vector of length \<open>B\<close>.
\<close>

fun score_value :: "real score \<Rightarrow> nat \<Rightarrow> real" where
  "score_value (Scalar c) b = c"
| "score_value (Vector v) b = v ! b"

fun score_ok :: "nat \<Rightarrow> real score \<Rightarrow> bool" where
  "score_ok B (Scalar c) = True"
| "score_ok B (Vector v) = (length v = B)"


text \<open>
  The batch formed by stacking two batches position by position: at every position the
  rows (or labels) of the first come before those of the second.
\<close>

definition stacked :: "'a list list \<Rightarrow> 'a list list \<Rightarrow> 'a list list" where
  "stacked xs1 xs2 = map2 (@) xs1 xs2"

section \<open>Auxiliary facts about lists and shapes\<close>

lemma those_map_Some:
  "(\<And>x. x \<in> set xs \<Longrightarrow> f x = Some (g x)) \<Longrightarrow> those (map f xs) = Some (map g xs)"
  by (induction xs) simp_all

lemma elementwise_Some:
  assumes "length xs = length ys"
    and "\<And>x y. (x, y) \<in> set (zip xs ys) \<Longrightarrow> f x y = Some (g x y)"
  shows "elementwise f xs ys = Some (map2 g xs ys)"
proof -
  have "those (map (\<lambda>(x, y). f x y) (zip xs ys)) = Some (map (\<lambda>(x, y). g x y) (zip xs ys))"
    by (rule those_map_Some) (use assms(2) in auto)
  then show ?thesis using assms(1) by (simp add: elementwise_def)
qed

lemma is_matrix_Nil [simp]: "is_matrix B L [] = (B = 0)"
  by (auto simp: is_matrix_def)

lemma is_matrix_Cons [simp]:
  "is_matrix B L (r # m) = (\<exists>B'. B = Suc B' \<and> length r = L \<and> is_matrix B' L m)"
  by (cases B) (auto simp: is_matrix_def)

lemma is_matrix_length: "is_matrix B L m \<Longrightarrow> length m = B"
  by (simp add: is_matrix_def)

lemma is_matrix_row: "is_matrix B L m \<Longrightarrow> r \<in> set m \<Longrightarrow> length r = L"
  by (simp add: is_matrix_def list_all_iff)

lemma is_matrix_nth: "is_matrix B L m \<Longrightarrow> b < B \<Longrightarrow> length (m ! b) = L"
  by (simp add: is_matrix_def list_all_length)

lemma is_matrixI: "length m = B \<Longrightarrow> (\<And>r. r \<in> set m \<Longrightarrow> length r = L) \<Longrightarrow> is_matrix B L m"
  by (simp add: is_matrix_def list_all_iff)

lemma is_cube_length: "is_cube B L M c \<Longrightarrow> length c = B"
  by (simp add: is_cube_def)

lemma is_cube_plane: "is_cube B L M c \<Longrightarrow> p \<in> set c \<Longrightarrow> is_matrix L M p"
  by (simp add: is_cube_def list_all_iff)

lemma is_cubeI: "length c = B \<Longrightarrow> (\<And>p. p \<in> set c \<Longrightarrow> is_matrix L M p) \<Longrightarrow> is_cube B L M c"
  by (simp add: is_cube_def list_all_iff)

lemma length_concat_matrix: "is_matrix B L m \<Longrightarrow> length (concat m) = B * L"
  by (induction m arbitrary: B) auto

lemma chunks_concat: "is_matrix B L m \<Longrightarrow> chunks B L (concat m) = m"
  by (induction m arbitrary: B) auto

lemma chunks_singletons: "chunks (length xs) 1 xs = map (\<lambda>v. [v]) xs"
  by (induction xs) simp_all

lemma chunks_map: "chunks k n (map f xs) = map (map f) (chunks k n xs)"
  by (induction k arbitrary: xs) (simp_all add: take_map drop_map)

lemma reshape3_column:
  assumes "is_matrix B L alpha"
  shows "reshape3 alpha (B, L, 1) = Some (map (map (\<lambda>v. [v])) alpha)"
proof -
  have len: "length (concat alpha) = B * L"
    using assms by (rule length_concat_matrix)
  have "chunks B L (chunks (B * L) 1 (concat alpha)) = chunks B L (map (\<lambda>v. [v]) (concat alpha))"
    using chunks_singletons [of "concat alpha"] by (simp add: len)
  also have "\<dots> = map (map (\<lambda>v. [v])) (chunks B L (concat alpha))"
    by (rule chunks_map)
  also have "\<dots> = map (map (\<lambda>v. [v])) alpha"
    using assms by (simp add: chunks_concat)
  finally show ?thesis by (simp add: reshape3_def len)
qed

lemma map2_left: "length xs = length ys \<Longrightarrow> map2 (\<lambda>x y. g x) xs ys = map g xs"
  by (induction xs ys rule: list_induct2) simp_all

lemma map2_right: "length xs = length ys \<Longrightarrow> map2 (\<lambda>x y. g y) xs ys = map g ys"
  by (induction xs ys rule: list_induct2) simp_all

lemma map2_replicate_right: "map2 f xs (replicate (length xs) y) = map (\<lambda>x. f x y) xs"
  by (induction xs) simp_all

lemma bcast_axis_equal:
  assumes "length xs = length ys"
    and "\<And>x y. (x, y) \<in> set (zip xs ys) \<Longrightarrow> f x y = Some (g x, y)"
  shows "bcast_axis f xs ys = Some (map g xs, ys)"
proof -
  have "those (map (\<lambda>(x, y). f x y) (zip xs ys)) = Some (map (\<lambda>(x, y). (g x, y)) (zip xs ys))"
    by (rule those_map_Some) (use assms(2) in auto)
  moreover have "map fst (map (\<lambda>(x, y). (g x, y)) (zip xs ys)) = map g xs"
    using assms(1) by (induction xs ys rule: list_induct2) simp_all
  moreover have "map snd (map (\<lambda>(x, y). (g x, y)) (zip xs ys)) = ys"
    using assms(1) by (induction xs ys rule: list_induct2) simp_all
  ultimately show ?thesis using assms(1) by (simp add: bcast_axis_def unzip_def)
qed

lemma bcast_axis_stretch: "bcast_axis (\<lambda>x y. Some (x, y)) [v] ys = Some (replicate (length ys) v, ys)"
proof (cases "length ys = 1")
  case True
  then obtain y where "ys = [y]" by (cases ys) auto
  then show ?thesis by (simp add: bcast_axis_def unzip_def)
next
  case False
  have "those (map (\<lambda>y. Some (v, y)) ys) = Some (map (\<lambda>y. (v, y)) ys)"
    by (rule those_map_Some) simp
  then show ?thesis using False
    by (simp add: bcast_axis_def unzip_def comp_def map_replicate_const)
qed

lemma bcast_axis_leading: "bcast_axis f xs [y] = bcast_axis f xs (replicate (length xs) y)"
proof (cases "length xs = 1")
  case True
  then obtain x where "xs = [x]" by (cases xs) auto
  then show ?thesis by (simp add: bcast_axis_def)
next
  case False
  then show ?thesis by (simp add: bcast_axis_def map2_replicate_right)
qed

lemma broadcast3_column:
  assumes "is_matrix B L alpha" and "is_cube B L L c"
  shows "broadcast3 (map (map (\<lambda>v. [v])) alpha) c = Some (map (map (replicate L)) alpha, c)"
proof -
  have row: "bcast_axis (bcast_axis (\<lambda>x y. Some (x, y))) (map (\<lambda>v. [v]) arow) plane
      = Some (map (replicate L) arow, plane)"
    if len: "length arow = L" and pl: "is_matrix L L plane" for arow :: "'a list" and plane :: "'b list list"
  proof -
    have "bcast_axis (bcast_axis (\<lambda>x y. Some (x, y))) (map (\<lambda>v. [v]) arow) plane
        = Some (map (\<lambda>s. replicate L (hd s)) (map (\<lambda>v. [v]) arow), plane)"
    proof (rule bcast_axis_equal)
      show "length (map (\<lambda>v. [v]) arow) = length plane"
        using len pl by (simp add: is_matrix_length)
    next
      fix x y assume "(x, y) \<in> set (zip (map (\<lambda>v. [v]) arow) plane)"
      then have "x \<in> set (map (\<lambda>v. [v]) arow)" and "y \<in> set plane"
        by (auto dest: set_zip_leftD set_zip_rightD)
      then obtain v where "x = [v]" and "length y = L"
        using pl by (auto dest: is_matrix_row)
      then show "bcast_axis (\<lambda>x y. Some (x, y)) x y = Some (replicate L (hd x), y)"
        by (simp add: bcast_axis_stretch)
    qed
    then show ?thesis by (simp add: comp_def)
  qed
  have "bcast_axis (bcast_axis (bcast_axis (\<lambda>x y. Some (x, y)))) (map (map (\<lambda>v. [v])) alpha) c
      = Some (map (\<lambda>s. map (\<lambda>t. replicate L (hd t)) s) (map (map (\<lambda>v. [v])) alpha), c)"
  proof (rule bcast_axis_equal)
    show "length (map (map (\<lambda>v. [v])) alpha) = length c"
      using assms by (simp add: is_matrix_length is_cube_length)
  next
    fix x y assume "(x, y) \<in> set (zip (map (map (\<lambda>v. [v])) alpha) c)"
    then have "x \<in> set (map (map (\<lambda>v. [v])) alpha)" and "y \<in> set c"
      by (auto dest: set_zip_leftD set_zip_rightD)
    then obtain arow where "x = map (\<lambda>v. [v]) arow" and "length arow = L" and "is_matrix L L y"
      using assms by (auto dest: is_matrix_row is_cube_plane)
    then show "bcast_axis (bcast_axis (\<lambda>x y. Some (x, y))) x y = Some (map (\<lambda>t. replicate L (hd t)) x, y)"
      by (simp add: row comp_def)
  qed
  then show ?thesis by (simp add: broadcast3_def comp_def)
qed

lemma is_cube_replicate: "is_matrix L M m \<Longrightarrow> is_cube B L M (replicate B m)"
  by (simp add: is_cube_def list_all_iff)

lemma broadcast_Array2:
  assumes "is_matrix B L alpha" and "is_matrix L L cost"
  shows "broadcast (map (map (\<lambda>v. [v])) alpha) (Array2 cost)
       = Some (map (map (replicate L)) alpha, replicate B cost)"
proof -
  have "broadcast3 (map (map (\<lambda>v. [v])) alpha) [cost]
      = broadcast3 (map (map (\<lambda>v. [v])) alpha) (replicate B cost)"
    using bcast_axis_leading [of _ "map (map (\<lambda>v. [v])) alpha" cost] assms(1)
    by (simp add: broadcast3_def is_matrix_length)
  then show ?thesis
    using broadcast3_column [OF assms(1) is_cube_replicate [OF assms(2)]] by simp
qed

lemma map2_cong:
  "(\<And>x y. (x, y) \<in> set (zip xs ys) \<Longrightarrow> f x y = g x y) \<Longrightarrow> map2 f xs ys = map2 g xs ys"
  by (rule map_cong) auto

lemma add1_Some: "length u = length v \<Longrightarrow> add1 u v = Some (map2 (+) u v)"
  unfolding add1_def by (rule elementwise_Some) simp_all

lemma add2_Some:
  assumes "is_matrix B L X" and "is_matrix B L Y"
  shows "add2 X Y = Some (map2 (map2 (+)) X Y)"
  unfolding add2_def
proof (rule elementwise_Some)
  show "length X = length Y" using assms by (simp add: is_matrix_length)
next
  fix x y assume "(x, y) \<in> set (zip X Y)"
  then have "x \<in> set X" and "y \<in> set Y" by (auto dest: set_zip_leftD set_zip_rightD)
  then have "length x = length y" using assms by (simp add: is_matrix_row)
  then show "add1 x y = Some (map2 (+) x y)" by (rule add1_Some)
qed

lemma add3_Some:
  assumes "is_cube B L M X" and "is_cube B L M Y"
  shows "add3 X Y = Some (map2 (map2 (map2 (+))) X Y)"
  unfolding add3_def
proof (rule elementwise_Some)
  show "length X = length Y" using assms by (simp add: is_cube_length)
next
  fix x y assume "(x, y) \<in> set (zip X Y)"
  then have "x \<in> set X" and "y \<in> set Y" by (auto dest: set_zip_leftD set_zip_rightD)
  then have "is_matrix L M x" and "is_matrix L M y" using assms by (auto dest: is_cube_plane)
  then show "add2 x y = Some (map2 (map2 (+)) x y)" by (rule add2_Some)
qed

lemma is_cube_stretched:
  assumes "is_matrix B L alpha"
  shows "is_cube B L L (map (map (replicate L)) alpha)"
  using assms by (auto intro!: is_cubeI is_matrixI simp: is_matrix_length is_matrix_row)

lemma map2_replicate_left: "map2 f (replicate (length ys) a) ys = map (f a) ys"
  by (induction ys) simp_all

lemma stretched_sum:
  assumes "is_matrix B L alpha" and "is_cube B L L c"
  shows "map2 (map2 (map2 (+))) (map (map (replicate L)) alpha) c = next_cost alpha c"
proof -
  have row: "map2 (map2 (+)) (map (replicate L) arow) plane = outer_add arow plane"
    if pl: "is_matrix L L plane" for arow :: "'a list" and plane
  proof -
    have "map2 (map2 (+)) (map (replicate L) arow) plane
        = map2 (\<lambda>a crow. map2 (+) (replicate L a) crow) arow plane"
      by (simp add: zip_map1 case_prod_unfold)
    also have "\<dots> = map2 (\<lambda>a crow. map (\<lambda>v. a + v) crow) arow plane"
    proof (rule map2_cong)
      fix a crow assume "(a, crow) \<in> set (zip arow plane)"
      then have "length crow = L" using pl by (auto dest: set_zip_rightD is_matrix_row)
      then show "map2 (+) (replicate L a) crow = map (\<lambda>v. a + v) crow"
        using map2_replicate_left [of "(+)" crow a] by simp
    qed
    finally show ?thesis by (simp add: outer_add_def)
  qed
  have "map2 (map2 (map2 (+))) (map (map (replicate L)) alpha) c
      = map2 (\<lambda>arow plane. map2 (map2 (+)) (map (replicate L) arow) plane) alpha c"
    by (simp add: zip_map1 case_prod_unfold)
  also have "\<dots> = map2 outer_add alpha c"
  proof (rule map2_cong)
    fix arow plane assume "(arow, plane) \<in> set (zip alpha c)"
    then have "is_matrix L L plane" using assms(2) by (auto dest: set_zip_rightD is_cube_plane)
    then show "map2 (map2 (+)) (map (replicate L) arow) plane = outer_add arow plane"
      by (rule row)
  qed
  finally show ?thesis by (simp add: next_cost_def)
qed

lemma transpose_rows_nonempty: "r \<in> set (transpose xss) \<Longrightarrow> r \<noteq> []"
  by (induction xss arbitrary: r rule: transpose.induct) auto

lemma reduce_axis1_3_Some:
  assumes "\<And>p. p \<in> set c \<Longrightarrow> p \<noteq> []"
    and "\<And>xs. xs \<noteq> [] \<Longrightarrow> f xs = Some (g xs)"
  shows "reduce_axis1_3 f c = Some (map (\<lambda>plane. map g (transpose plane)) c)"
  unfolding reduce_axis1_3_def
proof (rule those_map_Some)
  fix p assume "p \<in> set c"
  then have "p \<noteq> []" by (rule assms(1))
  moreover have "those (map f (transpose p)) = Some (map g (transpose p))"
    by (rule those_map_Some) (simp add: assms(2) transpose_rows_nonempty)
  ultimately show "(if p = [] then None else those (map f (transpose p))) = Some (map g (transpose p))"
    by simp
qed

lemma reduce_axis1_2_Some:
  assumes "\<And>r. r \<in> set m \<Longrightarrow> r \<noteq> []"
    and "\<And>xs. xs \<noteq> [] \<Longrightarrow> f xs = Some (g xs)"
  shows "reduce_axis1_2 f m = Some (map g m)"
  unfolding reduce_axis1_2_def
  by (rule those_map_Some) (simp add: assms)

lemma transpose_matrix:
  assumes "is_matrix L M p" and "0 < L"
  shows "transpose p = map (\<lambda>j. map (\<lambda>i. p ! i ! j) [0..<L]) [0..<M]"
proof -
  have "transpose p = map (\<lambda>j. map (\<lambda>i. p ! i ! j) [0..<length p]) [0..<M]"
  proof (rule transpose_rectangle)
    assume "p = []"
    then show "M = 0" using assms by simp
  next
    fix i assume "i < length p"
    then show "length (p ! i) = M" using assms(1) by (simp add: is_matrix_def list_all_length)
  qed
  then show ?thesis using assms(1) by (simp add: is_matrix_length)
qed

lemma is_matrix_outer_add:
  assumes "length arow = L" and "is_matrix L M plane"
  shows "is_matrix L M (outer_add arow plane)"
proof (rule is_matrixI)
  show "length (outer_add arow plane) = L"
    using assms by (simp add: outer_add_def is_matrix_length)
next
  fix r assume "r \<in> set (outer_add arow plane)"
  then obtain a crow where "(a, crow) \<in> set (zip arow plane)" and "r = map (\<lambda>v. a + v) crow"
    by (auto simp: outer_add_def)
  then show "length r = M" using assms(2) by (auto dest: set_zip_rightD is_matrix_row)
qed

lemma is_cube_next_cost:
  assumes "is_matrix B L alpha" and "is_cube B L M c"
  shows "is_cube B L M (next_cost alpha c)"
proof (rule is_cubeI)
  show "length (next_cost alpha c) = B"
    using assms by (simp add: next_cost_def is_matrix_length is_cube_length)
next
  fix p assume "p \<in> set (next_cost alpha c)"
  then obtain arow plane where "(arow, plane) \<in> set (zip alpha c)" and "p = outer_add arow plane"
    by (auto simp: next_cost_def)
  then show "is_matrix L M p"
    using assms by (auto intro!: is_matrix_outer_add dest: set_zip_leftD set_zip_rightD is_matrix_row is_cube_plane)
qed

section \<open>The single-position case of the decoder\<close>

text \<open>
  Claim C4. On a sequence of a single position the loop over \<^verbatim>\<open>xs[1:]\<close> and the loop
  over the backpointers do not run: for every cost matrix, \<^verbatim>\<open>crf1d_viterbi\<close> returns
  \<open>xs[0]\<close> itself as \<open>alpha\<close> and the one-element path made of the argmax of \<open>xs[0]\<close>
  over the label axis. (It raises exactly when that argmax raises, on an empty label
  axis.)
\<close>

theorem crf1d_viterbi_single_position:
  "crf1d_viterbi cost [x] = map_option (\<lambda>inds. (x, [inds])) (argmax2 x)"
  by (cases "argmax2 x") (simp_all add: crf1d_viterbi_def)

theorem crf1d_viterbi_single_position_witness:
  "crf1d_viterbi [[0, 1], [2, 3]] [[[1, 5, 5], [4, 2, 0::int]]]
     = Some ([[1, 5, 5], [4, 2, 0]], [[1, 0]])"
  using crf1d_viterbi_single_position [of "[[0, 1], [2, 3]]" "[[1, 5, 5], [4, 2, 0::int]]"]
  by (simp add: argmax2_def reduce_axis1_2_def argmax_list_def first_max_def)

section \<open>The assignment to \<^verbatim>\<open>cost\<close> inside the decoder's loop\<close>

text \<open>
  Claim C2 says that every step of the forward pass adds the current \<open>alpha\<close> to the
  original transition cost matrix. Line 41 assigns the sum to \<^verbatim>\<open>cost\<close>, so from the
  second step on the loop adds \<open>alpha\<close> to the tensor of the step before. With two
  labels, one batch item, zero transition costs and the emissions \<open>[0, 6]\<close>, \<open>[5, 0]\<close>,
  \<open>[0, 0]\<close>: after the first step \<open>alpha\<close> is \<open>[11, 6]\<close> and \<^verbatim>\<open>cost\<close> holds
  \<open>[[0, 0], [6, 6]]\<close>; the second step forms \<open>[[11, 11], [12, 12]]\<close>, records the
  backpointers \<open>[1, 1]\<close> and ends with \<open>alpha = [12, 12]\<close>, where \<open>alpha\<close> plus the
  original matrix is \<open>[[11, 11], [6, 6]]\<close>, with backpointers \<open>[0, 0]\<close> and maxima
  \<open>[11, 11]\<close>.
\<close>

theorem viterbi_second_step_rebound_cost:
  "viterbi_forward 1 2 [[0, 6]] (Array2 [[0, 0], [0, 0]]) [] [[[5, 0::int]]]
     = Some ([[11, 6]], Array3 [[[0, 0], [6, 6]]], [[[1, 1]]]) \<and>
   viterbi_forward 1 2 [[0, 6]] (Array2 [[0, 0], [0, 0]]) [] [[[5, 0]], [[0, 0::int]]]
     = Some ([[12, 12]], Array3 [[[11, 11], [12, 12]]], [[[1, 1]], [[1, 1]]]) \<and>
   step_tensor [[11, 6]] [[0, 0], [0, 0::int]] = [[[11, 11], [6, 6]]] \<and>
   argmax3 [[[11, 11], [6, 6::int]]] = Some [[0, 0]] \<and>
   max3 [[[11, 11], [6, 6::int]]] = Some [[11, 11]]"
  by code_simp

text \<open>
  Claim C3 says that the returned path maximises the score over all label sequences.
  On the same input the decoder returns the path \<open>1, 1, 0\<close>, whose score is 6, while
  the path \<open>1, 0, 0\<close> scores 11.
\<close>

theorem crf1d_viterbi_path_not_maximal:
  "crf1d_viterbi [[0, 0], [0, 0]] [[[0, 6]], [[5, 0]], [[0, 0::int]]]
     = Some ([[12, 12]], [[1], [1], [0]]) \<and>
   path_score [[0, 0], [0, 0]] [[[0, 6]], [[5, 0]], [[0, 0::int]]] 0 [1, 1, 0] = 6 \<and>
   path_score [[0, 0], [0, 0]] [[[0, 6]], [[5, 0]], [[0, 0::int]]] 0 [1, 0, 0] = 11"
  by code_simp

section \<open>The updaters\<close>

text \<open>
  Claim C9. For every \<open>inputs\<close> and \<open>optimizer\<close> the call operation of the base
  \<^verbatim>\<open>Updater\<close> raises \<^verbatim>\<open>NotImplementedError\<close>: it returns no result and leaves the
  optimizer as it was. Its \<^verbatim>\<open>serialize\<close> succeeds for every serializer and leaves
  the serializer as it was.
\<close>

theorem Updater_base:
  "Updater_call inputs optimizer = (Inl NotImplementedError, optimizer) \<and>
   Updater_serialize serializer = (Inr (), serializer)"
  by (simp add: Updater_call_def Updater_serialize_def)


lemma collect_result_lookup:
  "distinct (map fst items) \<Longrightarrow>
   collect_result items result name =
     (case map_of items name of
        Some (VariableAttr x) \<Rightarrow> if length x = 1 then Some x else result name
      | _ \<Rightarrow> result name)"
proof (induction items arbitrary: result)
  case Nil
  then show ?case by simp
next
  case (Cons item items)
  obtain n v where item: "item = (n, v)" by (cases item)
  from Cons.prems have d: "distinct (map fst items)" and n: "n \<notin> fst ` set items"
    by (simp_all add: item)
  from n have none: "map_of items n = None" by (simp add: map_of_eq_None_iff)
  show ?case
  proof (cases "name = n")
    case True
    then show ?thesis using Cons.IH [OF d] none
      by (cases v) (simp_all add: item)
  next
    case False
    then show ?thesis using Cons.IH [OF d]
      by (cases v) (simp_all add: item split: option.splits attr.splits)
  qed
qed

lemma StandardUpdater_call_result:
  "fst (StandardUpdater_call step self inputs opt)
     = collect_result (target (snd (StandardUpdater_call step self inputs opt))) Map.empty"
  by (simp add: StandardUpdater_call_def Let_def)

text \<open>
  Claim C8. The mapping a call of \<^verbatim>\<open>StandardUpdater\<close> returns has an entry under a
  name exactly when the target, as the update left it, holds directly under that name
  a \<^verbatim>\<open>Variable\<close> whose data array has one element, and the entry is that array.
  Variables of any other size, child links (whatever they hold) and other objects
  contribute nothing.
\<close>

theorem StandardUpdater_result:
  assumes "StandardUpdater_call step self inputs opt = (result, opt')"
    and "distinct (map fst (target opt'))"
  shows "(result name = Some x) = ((name, VariableAttr x) \<in> set (target opt') \<and> length x = 1)"
proof -
  have r: "result = collect_result (target opt') Map.empty"
    using StandardUpdater_call_result [of step self inputs opt] by (simp add: assms(1))
  have look: "result name =
     (case map_of (target opt') name of
        Some (VariableAttr x) \<Rightarrow> if length x = 1 then Some x else None
      | _ \<Rightarrow> None)"
    unfolding r using collect_result_lookup [OF assms(2), of Map.empty name] by simp
  have mem: "(map_of (target opt') name = Some v) = ((name, v) \<in> set (target opt'))" for v
    using assms(2) by (rule map_of_eq_Some_iff)
  show ?thesis
  proof (cases "map_of (target opt') name")
    case None
    then have "(name, VariableAttr x) \<notin> set (target opt')"
      using mem [of "VariableAttr x"] by simp
    then show ?thesis using None look by simp
  next
    case (Some v)
    then have v: "(name, v) \<in> set (target opt')" using mem by simp
    show ?thesis
    proof (cases "v = VariableAttr x")
      case True
      then show ?thesis using Some look v by auto
    next
      case False
      then have "(name, VariableAttr x) \<notin> set (target opt')"
        using mem [of "VariableAttr x"] Some by simp
      then show ?thesis using Some look False by (cases v) auto
    qed
  qed
qed

theorem StandardUpdater_result_witness:
  "fst (StandardUpdater_call (\<lambda>lf args link. link) (StandardUpdater_init (None :: unit option))
          (NonTuple (0::nat))
          \<lparr>target = [(''loss'', VariableAttr [5::int]), (''h'', VariableAttr [1, 2]),
                     (''predictor'', LinkAttr [(''accuracy'', VariableAttr [1])]), (''n'', OtherAttr)],
           update_calls = []\<rparr>) ''loss'' = Some [5]"
proof -
  let ?opt = "\<lparr>target = [(''loss'', VariableAttr [5::int]), (''h'', VariableAttr [1, 2]),
                     (''predictor'', LinkAttr [(''accuracy'', VariableAttr [1])]), (''n'', OtherAttr)],
           update_calls = ([] :: (unit lossfun \<times> nat variable list) list)\<rparr>"
  let ?call = "StandardUpdater_call (\<lambda>lf args link. link) (StandardUpdater_init None)
          (NonTuple (0::nat)) ?opt"
  have t: "target (snd ?call) = target ?opt"
    by (simp add: StandardUpdater_call_def optimizer_update_def Let_def)
  have d: "distinct (map fst (target (snd ?call)))"
    unfolding t by simp
  have "(fst ?call ''loss'' = Some [5]) =
      ((''loss'', VariableAttr [5]) \<in> set (target (snd ?call)) \<and> length [5::int] = 1)"
    by (rule StandardUpdater_result [OF surjective_pairing d])
  then show ?thesis unfolding t by simp
qed

lemma first_max_less:
  assumes "xs \<noteq> []"
  shows "first_max xs < length xs"
proof -
  have "Max (set xs) \<in> set xs" using assms by (simp add: Max_in)
  then have "takeWhile (\<lambda>v. v \<noteq> Max (set xs)) xs \<noteq> xs"
    by (auto simp: takeWhile_eq_all_conv)
  then have "length (takeWhile (\<lambda>v. v \<noteq> Max (set xs)) xs) \<noteq> length xs"
    using takeWhile_eq_take [of "\<lambda>v. v \<noteq> Max (set xs)" xs] by auto
  then show ?thesis
    using length_takeWhile_le [of "\<lambda>v. v \<noteq> Max (set xs)" xs] by (simp add: first_max_def)
qed



lemma planes_nonempty:
  assumes "is_cube B L M c" and "B = 0 \<or> 0 < L" and "p \<in> set c"
  shows "p \<noteq> []"
proof -
  have "is_matrix L M p" using assms(1,3) by (rule is_cube_plane)
  moreover have "0 < B" using assms(1,3) by (cases c) (auto simp: is_cube_def)
  ultimately show ?thesis using assms(2) by auto
qed

lemma argmax3_Some:
  assumes "is_cube B L M c" and "B = 0 \<or> 0 < L"
  shows "argmax3 c = Some (map (\<lambda>plane. map first_max (transpose plane)) c)"
  unfolding argmax3_def
  by (rule reduce_axis1_3_Some) (auto simp: argmax_list_def dest: planes_nonempty [OF assms])

lemma max3_Some:
  assumes "is_cube B L M c" and "B = 0 \<or> 0 < L"
  shows "max3 c = Some (map (\<lambda>plane. map (\<lambda>col. Max (set col)) (transpose plane)) c)"
  unfolding max3_def
  by (rule reduce_axis1_3_Some) (auto simp: max_list_def dest: planes_nonempty [OF assms])

lemma is_matrix_reduced:
  assumes "is_cube B L M c" and "B = 0 \<or> 0 < L"
  shows "is_matrix B M (map (\<lambda>plane. map g (transpose plane)) c)"
proof (rule is_matrixI)
  show "length (map (\<lambda>plane. map g (transpose plane)) c) = B"
    using assms(1) by (simp add: is_cube_length)
next
  fix r assume "r \<in> set (map (\<lambda>plane. map g (transpose plane)) c)"
  then obtain p where p: "p \<in> set c" and r: "r = map g (transpose p)" by auto
  have m: "is_matrix L M p" using assms(1) p by (rule is_cube_plane)
  have "0 < B" using assms(1) p by (cases c) (auto simp: is_cube_def)
  then have "0 < L" using assms(2) by simp
  then show "length r = M" using transpose_matrix [OF m] by (simp add: r)
qed

lemma is_matrix_map2:
  assumes "is_matrix B L X" and "is_matrix B L Y"
  shows "is_matrix B L (map2 (map2 f) X Y)"
proof (rule is_matrixI)
  show "length (map2 (map2 f) X Y) = B" using assms by (simp add: is_matrix_length)
next
  fix r assume "r \<in> set (map2 (map2 f) X Y)"
  then obtain x y where "(x, y) \<in> set (zip X Y)" and "r = map2 f x y" by auto
  then have "x \<in> set X" and "y \<in> set Y" and r: "r = map2 f x y"
    by (auto dest: set_zip_leftD set_zip_rightD)
  then have "length x = L" and "length y = L"
    using assms by (auto simp: is_matrix_row)
  then show "length r = L" by (simp add: r)
qed

lemma is_matrix_next_alpha:
  assumes "is_matrix B L alpha" and "is_cube B L L c" and "is_matrix B L x" and "B = 0 \<or> 0 < L"
  shows "is_matrix B L (next_alpha alpha c x)"
  unfolding next_alpha_def
  by (rule is_matrix_map2 [OF is_matrix_reduced [OF is_cube_next_cost [OF assms(1,2)] assms(4)] assms(3)])

lemma is_matrix_next_max_ind:
  assumes "is_matrix B L alpha" and "is_cube B L L c" and "B = 0 \<or> 0 < L"
  shows "is_matrix B L (next_max_ind alpha c)"
  unfolding next_max_ind_def
  by (rule is_matrix_reduced [OF is_cube_next_cost [OF assms(1,2)] assms(3)])

lemma viterbi_forward_step:
  assumes "is_matrix B L alpha" and "is_cube B L L c" and "is_matrix B L x" and "B = 0 \<or> 0 < L"
  shows "viterbi_forward B L alpha (Array3 c) max_inds (x # xs)
       = viterbi_forward B L (next_alpha alpha c x) (Array3 (next_cost alpha c))
           (max_inds @ [next_max_ind alpha c]) xs"
proof -
  have nc: "is_cube B L L (next_cost alpha c)"
    using assms(1,2) by (rule is_cube_next_cost)
  have a3: "add3 (map (map (replicate L)) alpha) c = Some (next_cost alpha c)"
    using add3_Some [OF is_cube_stretched [OF assms(1)] assms(2)] stretched_sum [OF assms(1,2)]
    by simp
  have a2: "add2 (map (\<lambda>plane. map (\<lambda>col. Max (set col)) (transpose plane)) (next_cost alpha c)) x
      = Some (next_alpha alpha c x)"
    using add2_Some [OF is_matrix_reduced [OF nc assms(4)] assms(3)]
    by (simp add: next_alpha_def)
  show ?thesis
    by (simp add: reshape3_column [OF assms(1), unfolded One_nat_def] broadcast3_column [OF assms(1,2)] a3
        argmax3_Some [OF nc assms(4)] max3_Some [OF nc assms(4)] a2 next_max_ind_def)
qed

lemma viterbi_forward_step_Array2:
  assumes "is_matrix B L alpha" and "is_matrix L L cost"
  shows "viterbi_forward B L alpha (Array2 cost) max_inds (x # xs)
       = viterbi_forward B L alpha (Array3 (replicate B cost)) max_inds (x # xs)"
  by (simp add: reshape3_column [OF assms(1), unfolded One_nat_def] broadcast_Array2 [OF assms, unfolded broadcast.simps]
      broadcast3_column [OF assms(1) is_cube_replicate [OF assms(2)]])

lemma viterbi_forward_run:
  assumes "is_matrix B L alpha" and "is_cube B L L c" and "list_all (is_matrix B L) xs"
    and "B = 0 \<or> 0 < L"
  shows "viterbi_forward B L alpha (Array3 c) max_inds xs
       = Some (case viterbi_run alpha c max_inds xs of (a, c', m) \<Rightarrow> (a, Array3 c', m))"
  using assms(1,2,3)
proof (induction xs arbitrary: alpha c max_inds)
  case Nil
  then show ?case by simp
next
  case (Cons x xs)
  from Cons.prems(3) have x: "is_matrix B L x" and xs: "list_all (is_matrix B L) xs"
    by simp_all
  have "viterbi_forward B L alpha (Array3 c) max_inds (x # xs)
      = viterbi_forward B L (next_alpha alpha c x) (Array3 (next_cost alpha c))
           (max_inds @ [next_max_ind alpha c]) xs"
    using Cons.prems(1,2) x assms(4) by (rule viterbi_forward_step)
  also have "\<dots> = Some (case viterbi_run (next_alpha alpha c x) (next_cost alpha c)
           (max_inds @ [next_max_ind alpha c]) xs of (a, c', m) \<Rightarrow> (a, Array3 c', m))"
    by (rule Cons.IH [OF is_matrix_next_alpha [OF Cons.prems(1,2) x assms(4)]
          is_cube_next_cost [OF Cons.prems(1,2)] xs])
  finally show ?case by simp
qed

lemma labels_belowI: "(\<And>l. l \<in> set y \<Longrightarrow> l < L) \<Longrightarrow> labels_below L y"
  by (simp add: labels_below_def list_all_iff)

lemma labels_belowD: "labels_below L y \<Longrightarrow> l \<in> set y \<Longrightarrow> l < L"
  by (simp add: labels_below_def list_all_iff)

lemma first_max_columns_below:
  assumes "is_matrix L L p" and "0 < L"
  shows "labels_below L (map first_max (transpose p))"
proof (rule labels_belowI)
  fix l assume "l \<in> set (map first_max (transpose p))"
  then obtain j where "l = first_max (map (\<lambda>i. p ! i ! j) [0..<L])"
    using transpose_matrix [OF assms] by auto
  then show "l < L"
    using first_max_less [of "map (\<lambda>i. p ! i ! j) [0..<L]"] assms(2) by simp
qed

lemma backpointers_next_max_ind:
  assumes "is_matrix B L alpha" and "is_cube B L L c" and "B = 0 \<or> 0 < L"
  shows "backpointers B L (next_max_ind alpha c)"
proof -
  have nc: "is_cube B L L (next_cost alpha c)"
    using assms(1,2) by (rule is_cube_next_cost)
  have "labels_below L r" if r: "r \<in> set (next_max_ind alpha c)" for r
  proof -
    from r obtain p where p: "p \<in> set (next_cost alpha c)" and r': "r = map first_max (transpose p)"
      by (auto simp: next_max_ind_def)
    have "0 < B" using nc p by (cases "next_cost alpha c") (auto simp: is_cube_def)
    then have "0 < L" using assms(3) by simp
    then show ?thesis
      using first_max_columns_below [OF is_cube_plane [OF nc p]] by (simp add: r')
  qed
  then show ?thesis
    using is_matrix_next_max_ind [OF assms] by (simp add: backpointers_def list_all_iff)
qed

lemma viterbi_run_shapes:
  assumes "is_matrix B L alpha" and "is_cube B L L c" and "list_all (is_matrix B L) xs"
    and "B = 0 \<or> 0 < L"
  shows "case viterbi_run alpha c max_inds xs of (a, c', m) \<Rightarrow>
           is_matrix B L a \<and> is_cube B L L c' \<and>
           (\<exists>new. m = max_inds @ new \<and> length new = length xs \<and> list_all (backpointers B L) new)"
  using assms(1,2,3)
proof (induction xs arbitrary: alpha c max_inds)
  case Nil
  then show ?case by simp
next
  case (Cons x xs)
  from Cons.prems(3) have x: "is_matrix B L x" and xs: "list_all (is_matrix B L) xs"
    by simp_all
  obtain a c' m where run: "viterbi_run (next_alpha alpha c x) (next_cost alpha c)
      (max_inds @ [next_max_ind alpha c]) xs = (a, c', m)"
    by (cases "viterbi_run (next_alpha alpha c x) (next_cost alpha c)
      (max_inds @ [next_max_ind alpha c]) xs") auto
  have "case viterbi_run (next_alpha alpha c x) (next_cost alpha c)
      (max_inds @ [next_max_ind alpha c]) xs of (a, c', m) \<Rightarrow>
           is_matrix B L a \<and> is_cube B L L c' \<and>
           (\<exists>new. m = (max_inds @ [next_max_ind alpha c]) @ new \<and> length new = length xs
               \<and> list_all (backpointers B L) new)"
    by (rule Cons.IH [OF is_matrix_next_alpha [OF Cons.prems(1,2) x assms(4)]
          is_cube_next_cost [OF Cons.prems(1,2)] xs])
  then obtain new where a: "is_matrix B L a" and c': "is_cube B L L c'"
    and m: "m = (max_inds @ [next_max_ind alpha c]) @ new" and len: "length new = length xs"
    and bp: "list_all (backpointers B L) new"
    unfolding run by auto
  have "m = max_inds @ (next_max_ind alpha c # new)" using m by simp
  moreover have "length (next_max_ind alpha c # new) = length (x # xs)" using len by simp
  moreover have "list_all (backpointers B L) (next_max_ind alpha c # new)"
    using bp backpointers_next_max_ind [OF Cons.prems(1,2) assms(4)] by simp
  ultimately show ?case using a c' run by auto
qed

lemma index_rows_Some:
  assumes "is_matrix B L m" and "length inds = B" and "labels_below L inds"
  shows "index_rows m inds = Some (map2 (\<lambda>row k. row ! k) m inds)"
proof -
  have "index_rows m inds = Some (map (\<lambda>k. m ! k ! (inds ! k)) [0..<length inds])"
    unfolding index_rows_def
  proof (rule those_map_Some)
    fix k assume "k \<in> set [0..<length inds]"
    then have k: "k < B" using assms(2) by simp
    then have "inds ! k < L" using assms(2,3) by (auto intro: labels_belowD)
    then show "(if k < length m \<and> inds ! k < length (m ! k) then Some (m ! k ! (inds ! k)) else None)
        = Some (m ! k ! (inds ! k))"
      using k assms(1) by (simp add: is_matrix_length is_matrix_nth)
  qed
  moreover have "map (\<lambda>k. m ! k ! (inds ! k)) [0..<length inds] = map2 (\<lambda>row k. row ! k) m inds"
    using assms(1,2) by (intro nth_equalityI) (simp_all add: is_matrix_length)
  ultimately show ?thesis by simp
qed

lemma gathered_labels:
  assumes "backpointers B L m" and "length inds = B" and "labels_below L inds"
  shows "length (map2 (\<lambda>row k. row ! k) m inds) = B"
    and "labels_below L (map2 (\<lambda>row k. row ! k) m inds)"
proof -
  have m: "is_matrix B L m" and below: "list_all (labels_below L) m"
    using assms(1) by (simp_all add: backpointers_def)
  show "length (map2 (\<lambda>row k. row ! k) m inds) = B"
    using m assms(2) by (simp add: is_matrix_length)
  show "labels_below L (map2 (\<lambda>row k. row ! k) m inds)"
  proof (rule labels_belowI)
    fix l assume "l \<in> set (map2 (\<lambda>row k. row ! k) m inds)"
    then obtain row k where rk: "(row, k) \<in> set (zip m inds)" and l: "l = row ! k" by auto
    then have row: "row \<in> set m" and k: "k \<in> set inds"
      by (auto dest: set_zip_leftD set_zip_rightD)
    have "k < length row" using row k m assms(3) by (auto simp: is_matrix_row dest: labels_belowD)
    then have "row ! k \<in> set row" by simp
    moreover have "labels_below L row" using below row by (simp add: list_all_iff)
    ultimately show "l < L" unfolding l by (rule labels_belowD [rotated])
  qed
qed

lemma backtrace_trace_back:
  assumes "list_all (backpointers B L) ms" and "length inds = B" and "labels_below L inds"
  shows "backtrace inds path ms = Some (path @ trace_back inds ms)"
  using assms
proof (induction ms arbitrary: inds path)
  case Nil
  then show ?case by simp
next
  case (Cons m ms)
  from Cons.prems(1) have m: "backpointers B L m" and ms: "list_all (backpointers B L) ms"
    by simp_all
  have "index_rows m inds = Some (map2 (\<lambda>row k. row ! k) m inds)"
    using m Cons.prems(2,3) by (intro index_rows_Some) (simp_all add: backpointers_def)
  then show ?case
    using Cons.IH [OF ms gathered_labels [OF m Cons.prems(2,3)]] by (simp add: Let_def)
qed

lemma trace_back_shapes:
  assumes "list_all (backpointers B L) ms" and "length inds = B" and "labels_below L inds"
  shows "length (trace_back inds ms) = length ms"
    and "list_all (\<lambda>v. is_vector B v \<and> labels_below L v) (trace_back inds ms)"
  using assms
proof (induction ms arbitrary: inds)
  case Nil
  {
    case 1 show ?case by simp
  next
    case 2 show ?case by simp
  }
next
  case (Cons m ms)
  {
    case 1
    then have m: "backpointers B L m" and ms: "list_all (backpointers B L) ms" by simp_all
    show ?case
      using Cons.IH(1) [OF ms gathered_labels [OF m 1(2,3)]] by (simp add: Let_def)
  next
    case 2
    then have m: "backpointers B L m" and ms: "list_all (backpointers B L) ms" by simp_all
    show ?case
      using Cons.IH(2) [OF ms gathered_labels [OF m 2(2,3)]] gathered_labels [OF m 2(2,3)]
      by (simp add: Let_def is_vector_def)
  }
qed

lemma is_matrix_pos: "is_matrix B L m \<Longrightarrow> r \<in> set m \<Longrightarrow> 0 < B"
  by (cases m) (auto simp: is_matrix_def)

lemma argmax2_Some:
  assumes "is_matrix B L a" and "B = 0 \<or> 0 < L"
  shows "argmax2 a = Some (map first_max a)"
  unfolding argmax2_def
proof (rule reduce_axis1_2_Some)
  fix r assume "r \<in> set a"
  then have "length r = L" and "0 < B"
    using assms(1) by (auto dest: is_matrix_row is_matrix_pos)
  then show "r \<noteq> []" using assms(2) by auto
qed (simp add: argmax_list_def)

lemma first_max_rows_below:
  assumes "is_matrix B L a" and "B = 0 \<or> 0 < L"
  shows "labels_below L (map first_max a)"
proof (rule labels_belowI)
  fix l assume "l \<in> set (map first_max a)"
  then obtain r where r: "r \<in> set a" and l: "l = first_max r" by auto
  then have len: "length r = L" and "0 < B"
    using assms(1) by (auto dest: is_matrix_row is_matrix_pos)
  then have "r \<noteq> []" using assms(2) by auto
  then show "l < L" using first_max_less [of r] len l by simp
qed

lemma crf1d_viterbi_decode:
  assumes "is_matrix L L cost" and "is_matrix B L x0" and "list_all (is_matrix B L) rest"
    and "B = 0 \<or> 0 < L"
  shows "crf1d_viterbi cost (x0 # rest) = Some (viterbi_decode cost x0 rest)"
proof -
  have B: "length x0 = B" and L: "length cost = L"
    using assms(1,2) by (simp_all add: is_matrix_length)
  have cube: "is_cube B L L (replicate B cost)"
    using assms(1) by (rule is_cube_replicate)
  obtain a c m where run: "viterbi_run x0 (replicate B cost) [] rest = (a, c, m)"
    by (cases "viterbi_run x0 (replicate B cost) [] rest") auto
  have "case viterbi_run x0 (replicate B cost) [] rest of (a, c', m) \<Rightarrow>
           is_matrix B L a \<and> is_cube B L L c' \<and>
           (\<exists>new. m = [] @ new \<and> length new = length rest \<and> list_all (backpointers B L) new)"
    using assms(2) cube assms(3,4) by (rule viterbi_run_shapes)
  then have a: "is_matrix B L a" and m: "list_all (backpointers B L) m"
    unfolding run by auto
  have fwd: "\<exists>c'. viterbi_forward B L x0 (Array2 cost) [] rest = Some (a, c', m)"
  proof (cases rest)
    case Nil
    then show ?thesis using run by simp
  next
    case (Cons x xs)
    have "viterbi_forward B L x0 (Array2 cost) [] (x # xs)
        = viterbi_forward B L x0 (Array3 (replicate B cost)) [] (x # xs)"
      using assms(2,1) by (rule viterbi_forward_step_Array2)
    then show ?thesis
      using viterbi_forward_run [OF assms(2) cube assms(3,4), of "[]"] run Cons by simp
  qed
  have inds: "argmax2 a = Some (map first_max a)"
    using a assms(4) by (rule argmax2_Some)
  have bt: "backtrace (map first_max a) [map first_max a] (rev m)
      = Some ([map first_max a] @ trace_back (map first_max a) (rev m))"
  proof (rule backtrace_trace_back)
    show "list_all (backpointers B L) (rev m)" using m by (simp add: list_all_iff)
    show "length (map first_max a) = B" using a by (simp add: is_matrix_length)
    show "labels_below L (map first_max a)" using a assms(4) by (rule first_max_rows_below)
  qed
  from fwd obtain c' where "viterbi_forward B L x0 (Array2 cost) [] rest = Some (a, c', m)" ..
  then show ?thesis
    using inds bt run by (simp add: crf1d_viterbi_def viterbi_decode_def B L)
qed

section \<open>The decoded path\<close>

text \<open>
  Claim C10. For a cost matrix of shape \<open>(L, L)\<close> with \<open>L \<ge> 1\<close> and a non-empty sequence
  of \<open>T\<close> emission matrices of shape \<open>(B, L)\<close>, \<^verbatim>\<open>crf1d_viterbi\<close> returns, and the
  path it returns has exactly \<open>T\<close> vectors, each of length \<open>B\<close>, every entry a label
  index below \<open>L\<close>.
\<close>

theorem crf1d_viterbi_path_shape:
  assumes "is_matrix L L cost" and "0 < L" and "xs \<noteq> []" and "list_all (is_matrix B L) xs"
  shows "\<exists>alpha path. crf1d_viterbi cost xs = Some (alpha, path) \<and> length path = length xs \<and>
           list_all (\<lambda>v. is_vector B v \<and> labels_below L v) path"
proof -
  from assms(3) obtain x0 rest where xs: "xs = x0 # rest" by (cases xs) auto
  with assms(4) have x0: "is_matrix B L x0" and rest: "list_all (is_matrix B L) rest"
    by simp_all
  have L: "B = 0 \<or> 0 < L" using assms(2) by simp
  have cube: "is_cube B L L (replicate B cost)"
    using assms(1) by (rule is_cube_replicate)
  obtain a c m where run: "viterbi_run x0 (replicate B cost) [] rest = (a, c, m)"
    by (cases "viterbi_run x0 (replicate B cost) [] rest") auto
  have "case viterbi_run x0 (replicate B cost) [] rest of (a, c', m) \<Rightarrow>
           is_matrix B L a \<and> is_cube B L L c' \<and>
           (\<exists>new. m = [] @ new \<and> length new = length rest \<and> list_all (backpointers B L) new)"
    using x0 cube rest L by (rule viterbi_run_shapes)
  then have a: "is_matrix B L a" and len: "length m = length rest"
    and m: "list_all (backpointers B L) (rev m)"
    unfolding run by (auto simp: list_all_iff)
  let ?inds = "map first_max a"
  have i1: "length ?inds = B" using a by (simp add: is_matrix_length)
  have i2: "labels_below L ?inds" using a L by (rule first_max_rows_below)
  have dec: "crf1d_viterbi cost xs = Some (a, rev (?inds # trace_back ?inds (rev m)))"
    using crf1d_viterbi_decode [OF assms(1) x0 rest L] run x0
    by (simp add: xs viterbi_decode_def is_matrix_length)
  moreover have "length (rev (?inds # trace_back ?inds (rev m))) = length xs"
    using trace_back_shapes(1) [OF m i1 i2] len by (simp add: xs)
  moreover have "list_all (\<lambda>v. is_vector B v \<and> labels_below L v) (rev (?inds # trace_back ?inds (rev m)))"
    using trace_back_shapes(2) [OF m i1 i2] i1 i2 by (simp add: list_all_iff is_vector_def)
  ultimately show ?thesis by blast
qed

theorem crf1d_viterbi_path_shape_witness:
  "is_matrix 2 2 [[1, 0], [0, 3::int]] \<and> (0::nat) < 2 \<and>
   [[[1, 2], [3, 1]], [[0, 0], [2, 2]], [[0, 5], [1, 1::int]]] \<noteq> [] \<and>
   list_all (is_matrix 2 2) [[[1, 2], [3, 1]], [[0, 0], [2, 2]], [[0, 5], [1, 1::int]]] \<and>
   (\<exists>alpha path.
      crf1d_viterbi [[1, 0], [0, 3]] [[[1, 2], [3, 1]], [[0, 0], [2, 2]], [[0, 5], [1, 1::int]]]
        = Some (alpha, path) \<and>
      length path = 3 \<and> list_all (\<lambda>v. is_vector 2 v \<and> labels_below 2 v) path)"
proof -
  have h1: "is_matrix 2 2 [[1, 0], [0, 3::int]]"
    by (simp add: is_matrix_def)
  have h2: "list_all (is_matrix 2 2) [[[1, 2], [3, 1]], [[0, 0], [2, 2]], [[0, 5], [1, 1::int]]]"
    by (simp add: is_matrix_def)
  have h3: "[[[1, 2], [3, 1]], [[0, 0], [2, 2]], [[0, 5], [1, 1::int]]] \<noteq> []"
    by simp
  have h0: "(0::nat) < 2" by simp
  show ?thesis
    using crf1d_viterbi_path_shape [OF h1 h0 h3 h2] h1 h2 by (simp add: numeral_3_eq_3)
qed







lemma is_matrix_matrix_of: "is_matrix B L (matrix_of B L f)"
  by (rule is_matrixI) (auto simp: matrix_of_def)

lemma matrix_of_nth: "b < B \<Longrightarrow> j < L \<Longrightarrow> matrix_of B L f ! b ! j = f b j"
  by (simp add: matrix_of_def)

lemma matrix_eqI:
  assumes "is_matrix B L X" and "is_matrix B L Y"
    and "\<And>b j. b < B \<Longrightarrow> j < L \<Longrightarrow> X ! b ! j = Y ! b ! j"
  shows "X = Y"
proof (rule nth_equalityI)
  show "length X = length Y" using assms(1,2) by (simp add: is_matrix_length)
next
  fix b assume "b < length X"
  then have b: "b < B" using assms(1) by (simp add: is_matrix_length)
  show "X ! b = Y ! b"
  proof (rule nth_equalityI)
    show "length (X ! b) = length (Y ! b)" using assms(1,2) b by (simp add: is_matrix_nth)
  next
    fix j assume "j < length (X ! b)"
    then have "j < L" using assms(1) b by (simp add: is_matrix_nth)
    then show "X ! b ! j = Y ! b ! j" using b by (rule assms(3) [rotated])
  qed
qed

lemma matrix_of_entries: "is_matrix B L m \<Longrightarrow> matrix_of B L (\<lambda>b j. m ! b ! j) = m"
  by (rule matrix_eqI [OF is_matrix_matrix_of]) (simp_all add: matrix_of_nth)

lemma logsumexp3_Some:
  assumes "is_cube B L M c" and "B = 0 \<or> 0 < L"
  shows "logsumexp3 c = Some (map (\<lambda>plane. map lse (transpose plane)) c)"
  unfolding logsumexp3_def
  by (rule reduce_axis1_3_Some) (auto simp: logsumexp_list_def dest: planes_nonempty [OF assms])

lemma is_matrix_next_logalpha:
  assumes "is_matrix L L cost" and "is_matrix B L alpha" and "is_matrix B L x" and "B = 0 \<or> 0 < L"
  shows "is_matrix B L (next_logalpha cost alpha x)"
proof -
  have "is_cube B L L (next_cost alpha (replicate B cost))"
    using assms(2) is_cube_replicate [OF assms(1)] by (rule is_cube_next_cost)
  then show ?thesis
    unfolding next_logalpha_def using assms(2,3,4)
    by (auto intro!: is_matrix_map2 is_matrix_reduced simp: is_matrix_length)
qed

lemma crf1d_forward_step:
  assumes "is_matrix L L cost" and "is_matrix B L alpha" and "is_matrix B L x" and "B = 0 \<or> 0 < L"
  shows "crf1d_forward B L cost alpha (x # xs) = crf1d_forward B L cost (next_logalpha cost alpha x) xs"
proof -
  have cube: "is_cube B L L (replicate B cost)"
    using assms(1) by (rule is_cube_replicate)
  have nc: "is_cube B L L (next_cost alpha (replicate B cost))"
    using assms(2) cube by (rule is_cube_next_cost)
  have a3: "add3 (map (map (replicate L)) alpha) (replicate B cost)
      = Some (next_cost alpha (replicate B cost))"
    using add3_Some [OF is_cube_stretched [OF assms(2)] cube] stretched_sum [OF assms(2) cube]
    by simp
  have a2: "add2 (map (\<lambda>plane. map lse (transpose plane)) (next_cost alpha (replicate B cost))) x
      = Some (next_logalpha cost alpha x)"
    using add2_Some [OF is_matrix_reduced [OF nc assms(4)] assms(3)] assms(2)
    by (simp add: next_logalpha_def is_matrix_length)
  show ?thesis
    by (simp add: reshape3_column [OF assms(2), unfolded One_nat_def]
        broadcast_Array2 [OF assms(2,1), unfolded broadcast.simps] a3
        logsumexp3_Some [OF nc assms(4)] a2)
qed

lemma outer_add_nth:
  assumes "length arow = L" and "is_matrix L M plane" and "i < L" and "j < M"
  shows "outer_add arow plane ! i ! j = arow ! i + plane ! i ! j"
  using assms by (simp add: outer_add_def is_matrix_length is_matrix_nth)

lemma next_cost_nth:
  assumes "is_matrix B L alpha" and "is_cube B L M c" and "b < B" and "i < L" and "j < M"
  shows "next_cost alpha c ! b ! i ! j = alpha ! b ! i + c ! b ! i ! j"
proof -
  have "c ! b \<in> set c" using assms(2,3) by (simp add: is_cube_length)
  then have pl: "is_matrix L M (c ! b)" using assms(2) by (auto dest: is_cube_plane)
  have "next_cost alpha c ! b = outer_add (alpha ! b) (c ! b)"
    using assms(1,2,3) by (simp add: next_cost_def is_matrix_length is_cube_length)
  then show ?thesis
    using outer_add_nth [OF is_matrix_nth [OF assms(1,3)] pl assms(4,5)] by simp
qed

lemma next_logalpha_nth:
  assumes "is_matrix L L cost" and "is_matrix B L alpha" and "is_matrix B L x"
    and "b < B" and "j < L"
  shows "next_logalpha cost alpha x ! b ! j
       = lse (map (\<lambda>i. alpha ! b ! i + cost ! i ! j) [0..<L]) + x ! b ! j"
proof -
  have L: "0 < L" using assms(5) by simp
  have cube: "is_cube B L L (replicate B cost)"
    using assms(1) by (rule is_cube_replicate)
  have nc: "is_cube B L L (next_cost alpha (replicate B cost))"
    using assms(2) cube by (rule is_cube_next_cost)
  then have len: "length (next_cost alpha (replicate B cost)) = B" by (rule is_cube_length)
  then have "next_cost alpha (replicate B cost) ! b \<in> set (next_cost alpha (replicate B cost))"
    using assms(4) by simp
  then have pl: "is_matrix L L (next_cost alpha (replicate B cost) ! b)"
    using nc by (auto dest: is_cube_plane)
  have col: "map (\<lambda>i. next_cost alpha (replicate B cost) ! b ! i ! j) [0..<L]
      = map (\<lambda>i. alpha ! b ! i + cost ! i ! j) [0..<L]"
    using next_cost_nth [OF assms(2) cube assms(4) _ assms(5)] assms(4) by simp
  have "next_logalpha cost alpha x ! b ! j
      = map lse (transpose (next_cost alpha (replicate B cost) ! b)) ! j + x ! b ! j"
    using assms(2,3,4,5) len transpose_matrix [OF pl L]
    by (simp add: next_logalpha_def is_matrix_length is_matrix_nth)
  also have "\<dots> = lse (map (\<lambda>i. next_cost alpha (replicate B cost) ! b ! i ! j) [0..<L]) + x ! b ! j"
    using transpose_matrix [OF pl L] assms(5) by simp
  finally show ?thesis by (simp add: col)
qed

lemma next_logalpha_spec:
  assumes "is_matrix L L cost" and "is_matrix B L (xs ! Suc t)" and "B = 0 \<or> 0 < L"
  shows "next_logalpha cost (matrix_of B L (alpha_spec cost xs t)) (xs ! Suc t)
       = matrix_of B L (alpha_spec cost xs (Suc t))"
proof (rule matrix_eqI)
  show "is_matrix B L (next_logalpha cost (matrix_of B L (alpha_spec cost xs t)) (xs ! Suc t))"
    using assms(1) is_matrix_matrix_of assms(2,3) by (rule is_matrix_next_logalpha)
  show "is_matrix B L (matrix_of B L (alpha_spec cost xs (Suc t)))"
    by (rule is_matrix_matrix_of)
next
  fix b j assume b: "b < B" and j: "j < L"
  have col: "map (\<lambda>i. matrix_of B L (alpha_spec cost xs t) ! b ! i + cost ! i ! j) [0..<L]
      = map (\<lambda>i. alpha_spec cost xs t b i + cost ! i ! j) [0..<L]"
    using b by (simp add: matrix_of_nth)
  have "next_logalpha cost (matrix_of B L (alpha_spec cost xs t)) (xs ! Suc t) ! b ! j
      = lse (map (\<lambda>i. matrix_of B L (alpha_spec cost xs t) ! b ! i + cost ! i ! j) [0..<L])
          + xs ! Suc t ! b ! j"
    using assms(1) is_matrix_matrix_of assms(2) b j by (rule next_logalpha_nth)
  also have "\<dots> = alpha_spec cost xs (Suc t) b j"
    unfolding col using assms(1) by (simp add: is_matrix_length)
  finally show "next_logalpha cost (matrix_of B L (alpha_spec cost xs t)) (xs ! Suc t) ! b ! j
      = matrix_of B L (alpha_spec cost xs (Suc t)) ! b ! j"
    using b j by (simp add: matrix_of_nth)
qed

lemma crf1d_forward_spec:
  assumes "is_matrix L L cost" and "list_all (is_matrix B L) xs" and "B = 0 \<or> 0 < L"
    and "k < length xs"
  shows "crf1d_forward B L cost (matrix_of B L (alpha_spec cost xs k)) (drop (Suc k) xs)
       = Some (matrix_of B L (alpha_spec cost xs (length xs - 1)))"
  using assms(4)
proof (induction "length xs - Suc k" arbitrary: k)
  case 0
  then have "drop (Suc k) xs = []" and "k = length xs - 1" by simp_all
  then show ?case by simp
next
  case (Suc n)
  then have k: "Suc k < length xs" by simp
  then have x: "is_matrix B L (xs ! Suc k)"
    using assms(2) by (simp add: list_all_length)
  have "drop (Suc k) xs = xs ! Suc k # drop (Suc (Suc k)) xs"
    using k by (simp add: Cons_nth_drop_Suc)
  then have "crf1d_forward B L cost (matrix_of B L (alpha_spec cost xs k)) (drop (Suc k) xs)
      = crf1d_forward B L cost (next_logalpha cost (matrix_of B L (alpha_spec cost xs k)) (xs ! Suc k))
          (drop (Suc (Suc k)) xs)"
    using crf1d_forward_step [OF assms(1) is_matrix_matrix_of x assms(3)] by simp
  also have "\<dots> = crf1d_forward B L cost (matrix_of B L (alpha_spec cost xs (Suc k)))
          (drop (Suc (Suc k)) xs)"
    using next_logalpha_spec [OF assms(1) x assms(3)] by simp
  also have "\<dots> = Some (matrix_of B L (alpha_spec cost xs (length xs - 1)))"
    using Suc.hyps(2) k by (intro Suc.hyps(1)) simp_all
  finally show ?case .
qed

lemma map2_nth: "length xs = n \<Longrightarrow> length ys = n \<Longrightarrow> map2 f xs ys = map (\<lambda>k. f (xs ! k) (ys ! k)) [0..<n]"
  by (rule nth_equalityI) simp_all

lemma map_nth_upt: "length xs = n \<Longrightarrow> map f xs = map (\<lambda>k. f (xs ! k)) [0..<n]"
  by (rule nth_equalityI) simp_all

lemma score_add_Some:
  assumes "score_ok B s" and "length r = B"
  shows "score_add s r = Some (map (\<lambda>b. score_value s b + r ! b) [0..<B])"
proof (cases s)
  case (Scalar c)
  then show ?thesis
    using map_nth_upt [OF assms(2), of "\<lambda>a. a + c"] by (simp add: add.commute)
next
  case (Vector u)
  then have "length u = B" using assms(1) by simp
  then show ?thesis
    using Vector add1_Some [of u r] map2_nth [of u B r "(+)"] assms(2) by simp
qed

lemma score_sub_Some:
  assumes "score_ok B s" and "length v = B"
  shows "score_sub v s = Some (map (\<lambda>b. v ! b - score_value s b) [0..<B])"
proof (cases s)
  case (Scalar c)
  then show ?thesis
    using map_nth_upt [OF assms(2), of "\<lambda>a. a - c"] by simp
next
  case (Vector u)
  then have u: "length u = B" using assms(1) by simp
  have "elementwise (\<lambda>a b. Some (a - b)) v u = Some (map2 (-) v u)"
    by (rule elementwise_Some) (simp_all add: u assms(2))
  then show ?thesis
    using Vector map2_nth [OF assms(2) u, of "(-)"] by simp
qed

lemma nth_concat_matrix:
  "is_matrix B L m \<Longrightarrow> i < B \<Longrightarrow> j < L \<Longrightarrow> concat m ! (i * L + j) = m ! i ! j"
proof (induction m arbitrary: B i)
  case Nil
  then show ?case by simp
next
  case (Cons r m)
  then obtain B' where B: "B = Suc B'" and r: "length r = L" and m: "is_matrix B' L m"
    by auto
  show ?case
  proof (cases i)
    case 0
    then show ?thesis using r Cons.prems(3) by (simp add: nth_append)
  next
    case (Suc i')
    then have "i' < B'" using Cons.prems(2) B by simp
    then have "concat m ! (i' * L + j) = m ! i' ! j"
      using m Cons.prems(3) by (intro Cons.IH)
    then show ?thesis using Suc r by (simp add: nth_append)
  qed
qed

lemma flat_index_bound: "a < L \<Longrightarrow> b < L \<Longrightarrow> a * L + b < L * (L::nat)"
proof -
  assume a: "a < L" and b: "b < L"
  have "a * L + b < a * L + L" using b by simp
  also have "\<dots> = Suc a * L" by simp
  also have "\<dots> \<le> L * L" using a by (metis Suc_leI mult_le_mono1)
  finally show ?thesis .
qed

lemma reshape2_column:
  "reshape2 cost (length (concat cost), 1) = Some (map (\<lambda>v. [v]) (concat cost))"
  by (simp add: reshape2_def chunks_singletons [unfolded One_nat_def])

lemma transition_costs:
  assumes "is_matrix L L cost" and "length y1 = B" and "length y2 = B"
    and "labels_below L y1" and "labels_below L y2"
  shows "flat_index L y1 y2 = Some (map (\<lambda>b. y1 ! b * L + y2 ! b) [0..<B])"
    and "embed_id (map (\<lambda>b. y1 ! b * L + y2 ! b) [0..<B]) (map (\<lambda>v. [v]) (concat cost))
       = Some (map (\<lambda>b. [cost ! (y1 ! b) ! (y2 ! b)]) [0..<B])"
    and "reshape1 (map (\<lambda>b. [cost ! (y1 ! b) ! (y2 ! b)]) [0..<B]) B
       = Some (map (\<lambda>b. cost ! (y1 ! b) ! (y2 ! b)) [0..<B])"
proof -
  have "elementwise (\<lambda>a b. Some (a * L + b)) y1 y2 = Some (map2 (\<lambda>a b. a * L + b) y1 y2)"
    by (rule elementwise_Some) (simp_all add: assms(2,3))
  then show "flat_index L y1 y2 = Some (map (\<lambda>b. y1 ! b * L + y2 ! b) [0..<B])"
    using map2_nth [OF assms(2,3), of "\<lambda>a b. a * L + b"] by (simp add: flat_index_def)
next
  have len: "length (concat cost) = L * L"
    using assms(1) by (rule length_concat_matrix)
  have "those (map (\<lambda>i. if i < length (map (\<lambda>v. [v]) (concat cost))
                         then Some (map (\<lambda>v. [v]) (concat cost) ! i) else None)
              (map (\<lambda>b. y1 ! b * L + y2 ! b) [0..<B]))
      = Some (map (\<lambda>i. [concat cost ! i]) (map (\<lambda>b. y1 ! b * L + y2 ! b) [0..<B]))"
  proof (rule those_map_Some)
    fix i assume "i \<in> set (map (\<lambda>b. y1 ! b * L + y2 ! b) [0..<B])"
    then obtain b where b: "b < B" and i: "i = y1 ! b * L + y2 ! b" by auto
    have "y1 ! b < L" and "y2 ! b < L"
      using assms(2,3,4,5) b by (auto intro: labels_belowD)
    then have "i < L * L" unfolding i by (rule flat_index_bound)
    then show "(if i < length (map (\<lambda>v. [v]) (concat cost))
                then Some (map (\<lambda>v. [v]) (concat cost) ! i) else None) = Some [concat cost ! i]"
      by (simp add: len)
  qed
  moreover have "map (\<lambda>i. [concat cost ! i]) (map (\<lambda>b. y1 ! b * L + y2 ! b) [0..<B])
      = map (\<lambda>b. [cost ! (y1 ! b) ! (y2 ! b)]) [0..<B]"
  proof -
    have "concat cost ! (y1 ! b * L + y2 ! b) = cost ! (y1 ! b) ! (y2 ! b)" if "b < B" for b
    proof -
      have "y1 ! b < L" and "y2 ! b < L"
        using assms(2,3,4,5) that by (auto intro: labels_belowD)
      then show ?thesis using assms(1) by (intro nth_concat_matrix)
    qed
    then show ?thesis by simp
  qed
  ultimately show "embed_id (map (\<lambda>b. y1 ! b * L + y2 ! b) [0..<B]) (map (\<lambda>v. [v]) (concat cost))
       = Some (map (\<lambda>b. [cost ! (y1 ! b) ! (y2 ! b)]) [0..<B])"
    by (simp add: embed_id_def)
next
  have "concat (map (\<lambda>b. [cost ! (y1 ! b) ! (y2 ! b)]) [0..<B])
      = map (\<lambda>b. cost ! (y1 ! b) ! (y2 ! b)) [0..<B]"
    by (induction B) simp_all
  then show "reshape1 (map (\<lambda>b. [cost ! (y1 ! b) ! (y2 ! b)]) [0..<B]) B
       = Some (map (\<lambda>b. cost ! (y1 ! b) ! (y2 ! b)) [0..<B])"
    by (simp add: reshape1_def)
qed

lemma select_item_Some:
  assumes "is_matrix B L x" and "length y = B" and "labels_below L y"
  shows "select_item x y = Some (map (\<lambda>b. x ! b ! (y ! b)) [0..<B])"
proof -
  have "elementwise (\<lambda>row l. if l < length row then Some (row ! l) else None) x y
      = Some (map2 (\<lambda>row l. row ! l) x y)"
  proof (rule elementwise_Some)
    show "length x = length y" using assms(1,2) by (simp add: is_matrix_length)
  next
    fix row l assume "(row, l) \<in> set (zip x y)"
    then have "row \<in> set x" and "l \<in> set y" by (auto dest: set_zip_leftD set_zip_rightD)
    then have "l < length row"
      using assms(1,3) by (auto simp: is_matrix_row dest: labels_belowD)
    then show "(if l < length row then Some (row ! l) else None) = Some (row ! l)" by simp
  qed
  then show ?thesis
    using map2_nth [OF is_matrix_length [OF assms(1)] assms(2), of "\<lambda>row l. row ! l"]
    by (simp add: select_item_def)
qed

lemma score_transitions_sum:
  assumes "is_matrix L L cost"
    and "list_all (\<lambda>p. length (fst p) = B \<and> length (snd p) = B \<and>
            labels_below L (fst p) \<and> labels_below L (snd p)) ps"
    and "score_ok B s"
  shows "\<exists>s'. score_transitions B L (map (\<lambda>v. [v]) (concat cost)) s ps = Some s' \<and> score_ok B s' \<and>
           (\<forall>b<B. score_value s' b
              = score_value s b + sum_list (map (\<lambda>p. cost ! (fst p ! b) ! (snd p ! b)) ps))"
  using assms(2,3)
proof (induction ps arbitrary: s)
  case Nil
  then show ?case by simp
next
  case (Cons p ps)
  obtain y1 y2 where p: "p = (y1, y2)" by (cases p)
  from Cons.prems(1) have y: "length y1 = B" "length y2 = B" "labels_below L y1" "labels_below L y2"
    and ps: "list_all (\<lambda>p. length (fst p) = B \<and> length (snd p) = B \<and>
            labels_below L (fst p) \<and> labels_below L (snd p)) ps"
    by (simp_all add: p)
  let ?r = "map (\<lambda>b. cost ! (y1 ! b) ! (y2 ! b)) [0..<B]"
  let ?v = "map (\<lambda>b. score_value s b + ?r ! b) [0..<B]"
  have add: "score_add s ?r = Some ?v"
    using Cons.prems(2) by (intro score_add_Some) simp_all
  have step: "score_transitions B L (map (\<lambda>v. [v]) (concat cost)) s (p # ps)
      = score_transitions B L (map (\<lambda>v. [v]) (concat cost)) (Vector ?v) ps"
    using transition_costs [OF assms(1) y] add by (simp add: p)
  have "score_ok B (Vector ?v)" by simp
  from Cons.IH [OF ps this] obtain s' where
    s': "score_transitions B L (map (\<lambda>v. [v]) (concat cost)) (Vector ?v) ps = Some s'"
    and ok: "score_ok B s'"
    and val: "\<forall>b<B. score_value s' b
              = score_value (Vector ?v) b + sum_list (map (\<lambda>p. cost ! (fst p ! b) ! (snd p ! b)) ps)"
    by blast
  have "score_value s' b
      = score_value s b + sum_list (map (\<lambda>p. cost ! (fst p ! b) ! (snd p ! b)) (p # ps))"
    if "b < B" for b
    using val that by (simp add: p)
  then show ?case using step s' ok by simp
qed

lemma score_emissions_sum:
  assumes "list_all (\<lambda>p. is_matrix B L (fst p) \<and> length (snd p) = B \<and> labels_below L (snd p)) ps"
    and "score_ok B s"
  shows "\<exists>s'. score_emissions s ps = Some s' \<and> score_ok B s' \<and>
           (\<forall>b<B. score_value s' b
              = score_value s b + sum_list (map (\<lambda>p. fst p ! b ! (snd p ! b)) ps))"
  using assms
proof (induction ps arbitrary: s)
  case Nil
  then show ?case by simp
next
  case (Cons p ps)
  obtain x y where p: "p = (x, y)" by (cases p)
  from Cons.prems(1) have x: "is_matrix B L x" and y: "length y = B" "labels_below L y"
    and ps: "list_all (\<lambda>p. is_matrix B L (fst p) \<and> length (snd p) = B \<and> labels_below L (snd p)) ps"
    by (simp_all add: p)
  let ?r = "map (\<lambda>b. x ! b ! (y ! b)) [0..<B]"
  let ?v = "map (\<lambda>b. score_value s b + ?r ! b) [0..<B]"
  have add: "score_add s ?r = Some ?v"
    using Cons.prems(2) by (intro score_add_Some) simp_all
  have step: "score_emissions s (p # ps) = score_emissions (Vector ?v) ps"
    using select_item_Some [OF x y] add by (simp add: p)
  have "score_ok B (Vector ?v)" by simp
  from Cons.IH [OF ps this] obtain s' where
    s': "score_emissions (Vector ?v) ps = Some s'"
    and ok: "score_ok B s'"
    and val: "\<forall>b<B. score_value s' b
              = score_value (Vector ?v) b + sum_list (map (\<lambda>p. fst p ! b ! (snd p ! b)) ps)"
    by blast
  have "score_value s' b = score_value s b + sum_list (map (\<lambda>p. fst p ! b ! (snd p ! b)) (p # ps))"
    if "b < B" for b
    using val that by (simp add: p)
  then show ?case using step s' ok by simp
qed

lemma zip_consecutive: "zip (butlast ys) (tl ys) = map (\<lambda>t. (ys ! t, ys ! Suc t)) [0..<length ys - 1]"
  by (rule nth_equalityI) (simp_all add: nth_butlast nth_tl)

lemma zip_positions: "length xs = length ys \<Longrightarrow> zip xs ys = map (\<lambda>t. (xs ! t, ys ! t)) [0..<length xs]"
  by (rule nth_equalityI) simp_all

lemma logsumexp2_Some:
  assumes "is_matrix B L a" and "B = 0 \<or> 0 < L"
  shows "logsumexp2 a = Some (map lse a)"
  unfolding logsumexp2_def
proof (rule reduce_axis1_2_Some)
  fix r assume "r \<in> set a"
  then have "length r = L" and "0 < B"
    using assms(1) by (auto dest: is_matrix_row is_matrix_pos)
  then show "r \<noteq> []" using assms(2) by auto
qed (simp add: logsumexp_list_def)

lemma crf1d_closed_form:
  assumes "is_matrix L L cost" and "xs \<noteq> []" and "list_all (is_matrix B L) xs"
    and "length ys = length xs" and "list_all (\<lambda>y. is_vector B y \<and> labels_below L y) ys"
  shows "crf1d cost xs ys
       = Some (map (\<lambda>b. logZ_spec cost xs b - path_score cost xs b (map (\<lambda>y. y ! b) ys)) [0..<B])"
proof -
  from assms(2) obtain x0 rest where xs: "xs = x0 # rest" by (cases xs) auto
  have x0: "is_matrix B L x0" using assms(3) by (simp add: xs)
  have lens: "length cost = L" "length x0 = B"
    using assms(1) x0 by (simp_all add: is_matrix_length)
  have ys: "\<And>t. t < length ys \<Longrightarrow> length (ys ! t) = B \<and> labels_below L (ys ! t)"
    using assms(5) by (simp add: list_all_length is_vector_def)
  have L: "B = 0 \<or> 0 < L"
  proof (cases "B = 0")
    case False
    have "0 < length ys" using assms(2,4) by simp
    then have "length (ys ! 0) = B" and "labels_below L (ys ! 0)" using ys by simp_all
    then have "ys ! 0 ! 0 < L" using False by (auto intro: labels_belowD)
    then show ?thesis by simp
  qed simp
  \<comment> \<open>the forward pass\<close>
  have "crf1d_forward B L cost (matrix_of B L (alpha_spec cost xs 0)) (drop (Suc 0) xs)
      = Some (matrix_of B L (alpha_spec cost xs (length xs - 1)))"
    using assms(1,3) L by (rule crf1d_forward_spec) (simp add: xs)
  moreover have "alpha_spec cost xs 0 = (\<lambda>b j. x0 ! b ! j)"
    by (intro ext) (simp add: xs)
  then have "matrix_of B L (alpha_spec cost xs 0) = x0"
    using matrix_of_entries [OF x0] by simp
  ultimately have fwd: "crf1d_forward B L cost x0 rest
      = Some (matrix_of B L (alpha_spec cost xs (length xs - 1)))"
    by (simp add: xs)
  have "logsumexp2 (matrix_of B L (alpha_spec cost xs (length xs - 1)))
      = Some (map lse (matrix_of B L (alpha_spec cost xs (length xs - 1))))"
    using is_matrix_matrix_of L by (rule logsumexp2_Some)
  then have logz: "logsumexp2 (matrix_of B L (alpha_spec cost xs (length xs - 1)))
      = Some (map (logZ_spec cost xs) [0..<B])"
    by (simp add: matrix_of_def logZ_spec_def lens comp_def)
  \<comment> \<open>the score of the given labels\<close>
  have tr: "list_all (\<lambda>p. length (fst p) = B \<and> length (snd p) = B \<and>
            labels_below L (fst p) \<and> labels_below L (snd p)) (zip (butlast ys) (tl ys))"
    unfolding zip_consecutive using ys by (simp add: list_all_iff)
  have xs_t: "\<And>t. t < length xs \<Longrightarrow> is_matrix B L (xs ! t)"
    using assms(3) by (simp add: list_all_length)
  have em: "list_all (\<lambda>p. is_matrix B L (fst p) \<and> length (snd p) = B \<and> labels_below L (snd p))
      (zip xs ys)"
    unfolding zip_positions [OF assms(4) [symmetric]] using ys xs_t assms(4)
    by (simp add: list_all_iff)
  obtain s1 where s1: "score_transitions B L (map (\<lambda>v. [v]) (concat cost)) (Scalar 0)
        (zip (butlast ys) (tl ys)) = Some s1"
    and ok1: "score_ok B s1"
    and v1: "\<forall>b<B. score_value s1 b = score_value (Scalar 0) b
        + sum_list (map (\<lambda>p. cost ! (fst p ! b) ! (snd p ! b)) (zip (butlast ys) (tl ys)))"
    using score_transitions_sum [OF assms(1) tr, of "Scalar 0"] by auto
  obtain s2 where s2: "score_emissions s1 (zip xs ys) = Some s2"
    and ok2: "score_ok B s2"
    and v2: "\<forall>b<B. score_value s2 b = score_value s1 b
        + sum_list (map (\<lambda>p. fst p ! b ! (snd p ! b)) (zip xs ys))"
    using score_emissions_sum [OF em ok1] by auto
  have total: "score_value s2 b = path_score cost xs b (map (\<lambda>y. y ! b) ys)" if "b < B" for b
  proof -
    have "sum_list (map (\<lambda>p. cost ! (fst p ! b) ! (snd p ! b)) (zip (butlast ys) (tl ys)))
        = sum_list (map (\<lambda>t. cost ! (map (\<lambda>y. y ! b) ys ! t) ! (map (\<lambda>y. y ! b) ys ! Suc t))
            [0..<length xs - 1])"
      unfolding zip_consecutive using assms(4)
      by (auto simp: comp_def intro!: arg_cong [where f = sum_list])
    moreover have "sum_list (map (\<lambda>p. fst p ! b ! (snd p ! b)) (zip xs ys))
        = sum_list (map (\<lambda>t. xs ! t ! b ! (map (\<lambda>y. y ! b) ys ! t)) [0..<length xs])"
      unfolding zip_positions [OF assms(4) [symmetric]] using assms(4)
      by (auto simp: comp_def intro!: arg_cong [where f = sum_list])
    ultimately show ?thesis
      using v1 v2 that by (simp add: path_score_def)
  qed
  have "score_sub (map (logZ_spec cost xs) [0..<B]) s2
      = Some (map (\<lambda>b. map (logZ_spec cost xs) [0..<B] ! b - score_value s2 b) [0..<B])"
    using ok2 by (rule score_sub_Some) simp
  also have "map (\<lambda>b. map (logZ_spec cost xs) [0..<B] ! b - score_value s2 b) [0..<B]
      = map (\<lambda>b. logZ_spec cost xs b - path_score cost xs b (map (\<lambda>y. y ! b) ys)) [0..<B]"
    using total by simp
  finally have sub: "score_sub (map (logZ_spec cost xs) [0..<B]) s2
      = Some (map (\<lambda>b. logZ_spec cost xs b - path_score cost xs b (map (\<lambda>y. y ! b) ys)) [0..<B])" .
  have "crf1d cost (x0 # rest) ys =
      crf1d_forward B L cost x0 rest \<bind> (\<lambda>alpha.
      logsumexp2 alpha \<bind> (\<lambda>logz.
      reshape2 cost (length (concat cost), 1) \<bind> (\<lambda>cost'.
      score_transitions B L cost' (Scalar 0) (zip (butlast ys) (tl ys)) \<bind> (\<lambda>score.
      score_emissions score (zip (x0 # rest) ys) \<bind> (\<lambda>score'.
      score_sub logz score')))))"
    by (simp add: crf1d_def lens)
  also have "\<dots> = Some (map (\<lambda>b. logZ_spec cost xs b - path_score cost xs b (map (\<lambda>y. y ! b) ys)) [0..<B])"
    unfolding xs [symmetric] fwd reshape2_column bind.bind_lunit logz s1 s2
    by (rule sub)
  finally show ?thesis by (simp only: xs)
qed

section \<open>The loss is the log partition function minus the score\<close>

text \<open>
  Claim C1. For a cost matrix of shape \<open>(L, L)\<close>, a non-empty sequence of \<open>T\<close> emission
  matrices of shape \<open>(B, L)\<close> and \<open>T\<close> label vectors of length \<open>B\<close> with entries below
  \<open>L\<close>, \<^verbatim>\<open>crf1d\<close> returns a vector of length \<open>B\<close> whose entry \<open>b\<close> is
  \<open>logZ[b] - score[b]\<close>: \<open>logZ[b]\<close> is the log-sum-exp over the labels of the forward
  recurrence started from \<open>xs[0]\<close>, and \<open>score[b]\<close> is the score of the label sequence
  \<open>ys[0][b], ..., ys[T-1][b]\<close>, its transition costs plus its emission scores. Array
  entries are real numbers, so sums do not depend on the order of addition.
\<close>

theorem crf1d_negative_log_likelihood:
  assumes "is_matrix L L cost" and "xs \<noteq> []" and "list_all (is_matrix B L) xs"
    and "length ys = length xs" and "list_all (\<lambda>y. is_vector B y \<and> labels_below L y) ys"
  shows "crf1d cost xs ys
       = Some (map (\<lambda>b. logZ_spec cost xs b - path_score cost xs b (map (\<lambda>y. y ! b) ys)) [0..<B])"
  using assms by (rule crf1d_closed_form)

theorem crf1d_negative_log_likelihood_witness:
  "is_matrix 2 2 [[0, 0], [0, 0::real]] \<and> [[[0, 0]], [[0, 0::real]]] \<noteq> [] \<and>
   list_all (is_matrix 1 2) [[[0, 0]], [[0, 0::real]]] \<and>
   length [[0], [1::nat]] = length [[[0, 0]], [[0, 0::real]]] \<and>
   list_all (\<lambda>y. is_vector 1 y \<and> labels_below 2 y) [[0], [1]] \<and>
   crf1d [[0, 0], [0, 0]] [[[0, 0]], [[0, 0]]] [[0], [1]] = Some [ln 4]"
proof -
  have h1: "is_matrix 2 2 [[0, 0], [0, 0::real]]" by (simp add: is_matrix_def)
  have h2: "[[[0, 0]], [[0, 0::real]]] \<noteq> []" by simp
  have h3: "list_all (is_matrix 1 2) [[[0, 0]], [[0, 0::real]]]" by (simp add: is_matrix_def)
  have h4: "length [[0], [1::nat]] = length [[[0, 0]], [[0, 0::real]]]" by simp
  have h5: "list_all (\<lambda>y. is_vector 1 y \<and> labels_below 2 y) [[0], [1]]"
    by (simp add: is_vector_def labels_below_def)
  have cols: "[0..<2] = [0, Suc 0]" by (simp add: upt_rec)
  have a1: "alpha_spec [[0, 0], [0, 0]] [[[0, 0]], [[0, 0]]] (Suc 0) 0 0 = ln 2"
    "alpha_spec [[0, 0], [0, 0]] [[[0, 0]], [[0, 0]]] (Suc 0) 0 (Suc 0) = ln 2"
    by (simp_all add: lse_def cols)
  have z: "logZ_spec [[0, 0], [0, 0]] [[[0, 0]], [[0, 0]]] 0 = ln 4"
    by (simp add: logZ_spec_def cols a1 lse_def)
  have s: "path_score [[0, 0], [0, 0]] [[[0, 0]], [[0, 0::real]]] 0 [0, 1] = 0"
    by (simp add: path_score_def cols)
  have "crf1d [[0, 0], [0, 0]] [[[0, 0]], [[0, 0]]] [[0], [1]] = Some [ln 4]"
    using crf1d_negative_log_likelihood [OF h1 h2 h3 h4 h5] z s by simp
  then show ?thesis using h1 h2 h3 h4 h5 by simp
qed

lemma next_cost_append:
  "length a1 = length c1 \<Longrightarrow> next_cost (a1 @ a2) (c1 @ c2) = next_cost a1 c1 @ next_cost a2 c2"
  by (simp add: next_cost_def)

lemma length_next_cost: "length (next_cost a c) = min (length a) (length c)"
  by (simp add: next_cost_def)

lemma next_max_ind_append:
  "length a1 = length c1 \<Longrightarrow>
   next_max_ind (a1 @ a2) (c1 @ c2) = next_max_ind a1 c1 @ next_max_ind a2 c2"
  by (simp add: next_max_ind_def next_cost_append)

lemma next_alpha_append:
  "length a1 = length c1 \<Longrightarrow> length x1 = length a1 \<Longrightarrow>
   next_alpha (a1 @ a2) (c1 @ c2) (x1 @ x2) = next_alpha a1 c1 x1 @ next_alpha a2 c2 x2"
  by (simp add: next_alpha_def next_cost_append length_next_cost)

lemma length_next_alpha:
  "length a = B \<Longrightarrow> length c = B \<Longrightarrow> length x = B \<Longrightarrow> length (next_alpha a c x) = B"
  by (simp add: next_alpha_def length_next_cost)

lemma map2_append_snoc:
  "length m1 = length m2 \<Longrightarrow> map2 (@) (m1 @ [n1]) (m2 @ [n2]) = map2 (@) m1 m2 @ [n1 @ n2]"
  by simp

lemma viterbi_run_append_batch:
  assumes "length xs1 = length xs2" and "length m1 = length m2"
    and "length a1 = B" and "length c1 = B" and "\<forall>x\<in>set xs1. length x = B"
  shows "viterbi_run (a1 @ a2) (c1 @ c2) (map2 (@) m1 m2) (map2 (@) xs1 xs2)
       = (case viterbi_run a1 c1 m1 xs1 of (a1', c1', m1') \<Rightarrow>
          case viterbi_run a2 c2 m2 xs2 of (a2', c2', m2') \<Rightarrow>
            (a1' @ a2', c1' @ c2', map2 (@) m1' m2'))"
  using assms
proof (induction xs1 xs2 arbitrary: a1 a2 c1 c2 m1 m2 rule: list_induct2)
  case Nil
  then show ?case by (simp split: prod.split)
next
  case (Cons x1 xs1 x2 xs2)
  from Cons.prems have x1: "length x1 = B" and rest: "\<forall>x\<in>set xs1. length x = B" by simp_all
  have eq: "length a1 = length c1" "length x1 = length a1"
    using Cons.prems x1 by simp_all
  have "viterbi_run (a1 @ a2) (c1 @ c2) (map2 (@) m1 m2) (map2 (@) (x1 # xs1) (x2 # xs2))
      = viterbi_run (next_alpha a1 c1 x1 @ next_alpha a2 c2 x2) (next_cost a1 c1 @ next_cost a2 c2)
          (map2 (@) (m1 @ [next_max_ind a1 c1]) (m2 @ [next_max_ind a2 c2])) (map2 (@) xs1 xs2)"
    using Cons.prems(1) eq
    by (simp add: next_alpha_append next_cost_append next_max_ind_append)
  also have "\<dots> = (case viterbi_run (next_alpha a1 c1 x1) (next_cost a1 c1) (m1 @ [next_max_ind a1 c1]) xs1
        of (a1', c1', m1') \<Rightarrow>
          case viterbi_run (next_alpha a2 c2 x2) (next_cost a2 c2) (m2 @ [next_max_ind a2 c2]) xs2
        of (a2', c2', m2') \<Rightarrow> (a1' @ a2', c1' @ c2', map2 (@) m1' m2'))"
    using Cons.prems x1 rest
    by (intro Cons.IH) (simp_all add: length_next_alpha length_next_cost)
  finally show ?case by simp
qed

lemma viterbi_run_length:
  "length (snd (snd (viterbi_run a c m xs))) = length m + length xs"
  by (induction xs arbitrary: a c m) simp_all

lemma length_trace_back: "length (trace_back inds ms) = length ms"
  by (induction ms arbitrary: inds) (simp_all add: Let_def)

lemma trace_back_append_batch:
  assumes "length ms1 = length ms2" and "length i1 = B" and "\<forall>m\<in>set ms1. length m = B"
  shows "trace_back (i1 @ i2) (map2 (@) ms1 ms2)
       = map2 (@) (trace_back i1 ms1) (trace_back i2 ms2)"
  using assms
proof (induction ms1 ms2 arbitrary: i1 i2 rule: list_induct2)
  case Nil
  then show ?case by simp
next
  case (Cons m1 ms1 m2 ms2)
  from Cons.prems have m1: "length m1 = length i1" and rest: "\<forall>m\<in>set ms1. length m = B"
    by simp_all
  have "length (map2 (\<lambda>row k. row ! k) m1 i1) = B"
    using Cons.prems by simp
  then show ?case
    using Cons.IH [OF _ rest, of "map2 (\<lambda>row k. row ! k) m1 i1" "map2 (\<lambda>row k. row ! k) m2 i2"] m1
    by (simp add: Let_def)
qed

lemma rev_map2_append:
  "length ms1 = length ms2 \<Longrightarrow> rev (map2 (@) ms1 ms2) = map2 (@) (rev ms1) (rev ms2)"
  by (simp add: rev_map zip_rev)

lemma backpointers_length: "backpointers B L m \<Longrightarrow> length m = B"
  by (auto simp: backpointers_def dest: is_matrix_length)

lemma viterbi_decode_append:
  assumes "is_matrix L L cost" and "is_matrix B1 L x1" and "list_all (is_matrix B1 L) r1"
    and "length r1 = length r2" and "B1 = 0 \<or> 0 < L"
  shows "viterbi_decode cost (x1 @ x2) (map2 (@) r1 r2)
       = (case viterbi_decode cost x1 r1 of (a1, p1) \<Rightarrow>
          case viterbi_decode cost x2 r2 of (a2, p2) \<Rightarrow> (a1 @ a2, map2 (@) p1 p2))"
proof -
  have B1: "length x1 = B1" using assms(2) by (rule is_matrix_length)
  obtain a1 c1 m1 where run1: "viterbi_run x1 (replicate B1 cost) [] r1 = (a1, c1, m1)"
    by (cases "viterbi_run x1 (replicate B1 cost) [] r1") auto
  obtain a2 c2 m2 where run2: "viterbi_run x2 (replicate (length x2) cost) [] r2 = (a2, c2, m2)"
    by (cases "viterbi_run x2 (replicate (length x2) cost) [] r2") auto
  have "case viterbi_run x1 (replicate B1 cost) [] r1 of (a, c', m) \<Rightarrow>
           is_matrix B1 L a \<and> is_cube B1 L L c' \<and>
           (\<exists>new. m = [] @ new \<and> length new = length r1 \<and> list_all (backpointers B1 L) new)"
    using assms(2) is_cube_replicate [OF assms(1)] assms(3,5) by (rule viterbi_run_shapes)
  then have sh: "is_matrix B1 L a1" "list_all (backpointers B1 L) m1" and len1: "length m1 = length r1"
    unfolding run1 by auto
  have a1: "length a1 = B1" using sh(1) by (rule is_matrix_length)
  have m1: "\<forall>m\<in>set (rev m1). length m = B1"
    using sh(2) by (auto simp: list_all_iff dest: backpointers_length)
  have len2: "length m2 = length r2"
    using viterbi_run_length [of x2 "replicate (length x2) cost" "[]" r2] run2 by simp
  have r1: "\<forall>x\<in>set r1. length x = B1"
    using assms(3) by (auto simp: list_all_iff dest: is_matrix_length)
  have "viterbi_run (x1 @ x2) (replicate B1 cost @ replicate (length x2) cost)
          (map2 (@) [] []) (map2 (@) r1 r2)
      = (case viterbi_run x1 (replicate B1 cost) [] r1 of (a1', c1', m1') \<Rightarrow>
         case viterbi_run x2 (replicate (length x2) cost) [] r2 of (a2', c2', m2') \<Rightarrow>
           (a1' @ a2', c1' @ c2', map2 (@) m1' m2'))"
    using assms(4) _ B1 _ r1 by (rule viterbi_run_append_batch) simp_all
  then have run: "viterbi_run (x1 @ x2) (replicate (length (x1 @ x2)) cost) [] (map2 (@) r1 r2)
      = (a1 @ a2, c1 @ c2, map2 (@) m1 m2)"
    by (simp add: run1 run2 replicate_add B1)
  let ?I1 = "map first_max a1" and ?I2 = "map first_max a2"
  let ?T1 = "trace_back ?I1 (rev m1)" and ?T2 = "trace_back ?I2 (rev m2)"
  have mm: "length m1 = length m2" using len1 len2 assms(4) by simp
  have tt: "length ?T1 = length ?T2" using mm by (simp add: length_trace_back)
  have "trace_back (?I1 @ ?I2) (map2 (@) (rev m1) (rev m2)) = map2 (@) ?T1 ?T2"
    using _ _ m1 by (rule trace_back_append_batch) (simp_all add: mm a1)
  then have tb: "trace_back (map first_max (a1 @ a2)) (rev (map2 (@) m1 m2)) = map2 (@) ?T1 ?T2"
    using rev_map2_append [OF mm] by simp
  have "rev (map first_max (a1 @ a2) # map2 (@) ?T1 ?T2)
      = rev (map2 (@) ?T1 ?T2) @ [?I1 @ ?I2]"
    by simp
  also have "\<dots> = map2 (@) (rev ?T1) (rev ?T2) @ [?I1 @ ?I2]"
    using rev_map2_append [OF tt] by simp
  also have "\<dots> = map2 (@) (rev ?T1 @ [?I1]) (rev ?T2 @ [?I2])"
    using tt by simp
  finally have "rev (map first_max (a1 @ a2) # trace_back (map first_max (a1 @ a2)) (rev (map2 (@) m1 m2)))
      = map2 (@) (rev (?I1 # ?T1)) (rev (?I2 # ?T2))"
    using tb by simp
  then show ?thesis
    unfolding viterbi_decode_def run B1 run1 run2 by simp
qed





section \<open>Ties\<close>



lemma alpha_spec_cong:
  assumes "\<forall>t'\<le>t. xs ! t' ! b = xs' ! t' ! b'"
  shows "alpha_spec cost xs t b j = alpha_spec cost xs' t b' j"
  using assms
proof (induction t arbitrary: j)
  case 0
  then show ?case by simp
next
  case (Suc t)
  then have "alpha_spec cost xs t b i = alpha_spec cost xs' t b' i" for i
    by (intro Suc.IH) simp
  moreover have "xs ! Suc t ! b = xs' ! Suc t ! b'" using Suc.prems by simp
  ultimately show ?case by simp
qed

lemma logZ_spec_cong:
  assumes "length xs = length xs'" and "xs \<noteq> []" and "\<forall>t<length xs. xs ! t ! b = xs' ! t ! b'"
  shows "logZ_spec cost xs b = logZ_spec cost xs' b'"
proof -
  have "\<forall>t'\<le>length xs - 1. xs ! t' ! b = xs' ! t' ! b'"
    using assms(2,3) by (cases xs) auto
  then have "alpha_spec cost xs (length xs - 1) b = alpha_spec cost xs' (length xs - 1) b'"
    by (intro ext alpha_spec_cong)
  then show ?thesis by (simp add: logZ_spec_def assms(1) [symmetric])
qed

lemma path_score_cong:
  assumes "length xs = length xs'" and "\<forall>t<length xs. xs ! t ! b = xs' ! t ! b'"
    and "\<forall>t<length xs. y ! t = y' ! t"
  shows "path_score cost xs b y = path_score cost xs' b' y'"
proof -
  have tr: "map (\<lambda>t. cost ! (y ! t) ! (y ! Suc t)) [0..<length xs - 1]
      = map (\<lambda>t. cost ! (y' ! t) ! (y' ! Suc t)) [0..<length xs - 1]"
    using assms(3) by (intro map_cong) auto
  have em: "map (\<lambda>t. xs ! t ! b ! (y ! t)) [0..<length xs]
      = map (\<lambda>t. xs' ! t ! b' ! (y' ! t)) [0..<length xs]"
    using assms(2,3) by (intro map_cong) auto
  show ?thesis
    unfolding path_score_def assms(1) [symmetric] tr em ..
qed

lemma stacked_nth:
  "length xs1 = length xs2 \<Longrightarrow> t < length xs1 \<Longrightarrow> map2 (@) xs1 xs2 ! t = xs1 ! t @ xs2 ! t"
  by simp

lemma stacked_matrices:
  assumes "list_all (is_matrix B1 L) xs1" and "list_all (is_matrix B2 L) xs2"
  shows "list_all (is_matrix (B1 + B2) L) (map2 (@) xs1 xs2)"
proof -
  have "is_matrix (B1 + B2) L (x1 @ x2)" if "(x1, x2) \<in> set (zip xs1 xs2)" for x1 x2
  proof -
    from that have "is_matrix B1 L x1" and "is_matrix B2 L x2"
      using assms by (auto simp: list_all_iff dest: set_zip_leftD set_zip_rightD)
    then have "length x1 = B1" "length x2 = B2" "\<And>r. r \<in> set x1 \<Longrightarrow> length r = L"
      "\<And>r. r \<in> set x2 \<Longrightarrow> length r = L"
      by (auto dest: is_matrix_length is_matrix_row)
    then show ?thesis
      by (intro is_matrixI) auto
  qed
  then show ?thesis by (auto simp: list_all_iff)
qed

lemma stacked_labels:
  assumes "list_all (\<lambda>y. is_vector B1 y \<and> labels_below L y) ys1"
    and "list_all (\<lambda>y. is_vector B2 y \<and> labels_below L y) ys2"
  shows "list_all (\<lambda>y. is_vector (B1 + B2) y \<and> labels_below L y) (map2 (@) ys1 ys2)"
proof -
  have "is_vector (B1 + B2) (y1 @ y2) \<and> labels_below L (y1 @ y2)"
    if "(y1, y2) \<in> set (zip ys1 ys2)" for y1 y2
  proof -
    from that have "is_vector B1 y1 \<and> labels_below L y1" and "is_vector B2 y2 \<and> labels_below L y2"
      using assms by (auto simp: list_all_iff dest: set_zip_leftD set_zip_rightD)
    then show ?thesis by (simp add: is_vector_def labels_below_def)
  qed
  then show ?thesis by (auto simp: list_all_iff)
qed

lemma crf1d_stacked:
  assumes "is_matrix L L cost" and "xs1 \<noteq> []"
    and "list_all (is_matrix 1 L) xs1" and "list_all (is_matrix 1 L) xs2"
    and "length xs2 = length xs1" and "length ys1 = length xs1" and "length ys2 = length xs1"
    and "list_all (\<lambda>y. is_vector 1 y \<and> labels_below L y) ys1"
    and "list_all (\<lambda>y. is_vector 1 y \<and> labels_below L y) ys2"
  shows "\<exists>l1 l2. crf1d cost xs1 ys1 = Some [l1] \<and> crf1d cost xs2 ys2 = Some [l2] \<and>
           crf1d cost (map2 (@) xs1 xs2) (map2 (@) ys1 ys2) = Some [l1, l2]"
proof -
  let ?xs = "map2 (@) xs1 xs2" and ?ys = "map2 (@) ys1 ys2"
  let ?F = "\<lambda>xs ys b. logZ_spec cost xs b - path_score cost xs b (map (\<lambda>y. y ! b) ys)"
  have one: "[0..<1] = [0]" by simp
  have two: "[0..<1 + 1] = [0, 1]" by (simp add: upt_rec)
  have xs2: "xs2 \<noteq> []" using assms(2,5) by auto
  have len: "length ?xs = length xs1" "length ?ys = length xs1"
    using assms(5,6,7) by simp_all
  have r1: "crf1d cost xs1 ys1 = Some [?F xs1 ys1 0]"
    using crf1d_closed_form [OF assms(1,2,3,6,8)] by (simp only: one list.map)
  have r2: "crf1d cost xs2 ys2 = Some [?F xs2 ys2 0]"
    using crf1d_closed_form [OF assms(1) xs2 assms(4) _ assms(9)] assms(5,7)
    by (simp only: one list.map)
  have ne: "?xs \<noteq> []" using assms(2) xs2 by (cases xs1; cases xs2) auto
  have "crf1d cost ?xs ?ys = Some (map (?F ?xs ?ys) [0..<1 + 1])"
    using assms(1) ne stacked_matrices [OF assms(3,4)] _ stacked_labels [OF assms(8,9)]
    by (rule crf1d_closed_form) (simp add: assms(5,6,7))
  then have r12: "crf1d cost ?xs ?ys = Some [?F ?xs ?ys 0, ?F ?xs ?ys 1]"
    by (simp only: two list.map)
  \<comment> \<open>row 0 of the stacked input is the first item, row 1 the second\<close>
  have x_len: "length (xs1 ! t) = 1" if "t < length xs1" for t
    using assms(3) that by (auto simp: list_all_length dest: is_matrix_length)
  have y_len: "length (ys1 ! t) = 1" if "t < length xs1" for t
    using assms(6,8) that by (auto simp: list_all_length is_vector_def)
  have x0: "?xs ! t ! 0 = xs1 ! t ! 0" and x1: "?xs ! t ! 1 = xs2 ! t ! 0" if "t < length xs1" for t
    using that assms(5) x_len [OF that] by (simp_all add: nth_append)
  have y0: "?ys ! t ! 0 = ys1 ! t ! 0" and y1: "?ys ! t ! 1 = ys2 ! t ! 0" if "t < length xs1" for t
    using that assms(6,7) y_len [OF that] by (simp_all add: nth_append)
  have z0: "logZ_spec cost ?xs 0 = logZ_spec cost xs1 0"
  proof (rule logZ_spec_cong)
    show "length ?xs = length xs1" by (rule len)
    show "?xs \<noteq> []" by (rule ne)
    show "\<forall>t<length ?xs. ?xs ! t ! 0 = xs1 ! t ! 0"
      unfolding len using x0 by blast
  qed
  have z1: "logZ_spec cost ?xs 1 = logZ_spec cost xs2 0"
  proof (rule logZ_spec_cong)
    show "length ?xs = length xs2" using len assms(5) by simp
    show "?xs \<noteq> []" by (rule ne)
    show "\<forall>t<length ?xs. ?xs ! t ! 1 = xs2 ! t ! 0"
      unfolding len using x1 by blast
  qed
  have s0: "path_score cost ?xs 0 (map (\<lambda>y. y ! 0) ?ys) = path_score cost xs1 0 (map (\<lambda>y. y ! 0) ys1)"
  proof (rule path_score_cong)
    show "length ?xs = length xs1" by (rule len)
    show "\<forall>t<length ?xs. ?xs ! t ! 0 = xs1 ! t ! 0"
      unfolding len using x0 by blast
    show "\<forall>t<length ?xs. map (\<lambda>y. y ! 0) ?ys ! t = map (\<lambda>y. y ! 0) ys1 ! t"
      unfolding len
    proof (intro allI impI)
      fix t assume t: "t < length xs1"
      then have "map (\<lambda>y. y ! 0) ?ys ! t = ?ys ! t ! 0" using len(2) by (simp del: nth_zip)
      moreover have "map (\<lambda>y. y ! 0) ys1 ! t = ys1 ! t ! 0" using t assms(6) by simp
      ultimately show "map (\<lambda>y. y ! 0) ?ys ! t = map (\<lambda>y. y ! 0) ys1 ! t"
        using y0 [OF t] by simp
    qed
  qed
  have s1: "path_score cost ?xs 1 (map (\<lambda>y. y ! 1) ?ys) = path_score cost xs2 0 (map (\<lambda>y. y ! 0) ys2)"
  proof (rule path_score_cong)
    show "length ?xs = length xs2" using len assms(5) by simp
    show "\<forall>t<length ?xs. ?xs ! t ! 1 = xs2 ! t ! 0"
      unfolding len using x1 by blast
    show "\<forall>t<length ?xs. map (\<lambda>y. y ! 1) ?ys ! t = map (\<lambda>y. y ! 0) ys2 ! t"
      unfolding len
    proof (intro allI impI)
      fix t assume t: "t < length xs1"
      then have "map (\<lambda>y. y ! 1) ?ys ! t = ?ys ! t ! 1" using len(2) by (simp del: nth_zip)
      moreover have "map (\<lambda>y. y ! 0) ys2 ! t = ys2 ! t ! 0" using t assms(7) by simp
      ultimately show "map (\<lambda>y. y ! 1) ?ys ! t = map (\<lambda>y. y ! 0) ys2 ! t"
        using y1 [OF t] by simp
    qed
  qed
  show ?thesis
    using r1 r2 r12 unfolding z0 z1 s0 s1 by blast
qed

lemma single_row: "is_matrix 1 L a \<Longrightarrow> \<exists>r. a = [r]"
  by (cases a) (auto simp: is_matrix_def)

lemma crf1d_viterbi_stacked:
  assumes "is_matrix L L cost" and "0 < L" and "xs1 \<noteq> []"
    and "list_all (is_matrix 1 L) xs1" and "list_all (is_matrix 1 L) xs2"
    and "length xs2 = length xs1"
  shows "\<exists>a1 a2 p1 p2.
           crf1d_viterbi cost xs1 = Some ([a1], p1) \<and> crf1d_viterbi cost xs2 = Some ([a2], p2) \<and>
           crf1d_viterbi cost (map2 (@) xs1 xs2) = Some ([a1, a2], map2 (@) p1 p2)"
proof -
  from assms(3) obtain x1 r1 where xs1: "xs1 = x1 # r1" by (cases xs1) auto
  from assms(3,6) obtain x2 r2 where xs2: "xs2 = x2 # r2" by (cases xs2) auto
  have x1: "is_matrix 1 L x1" and r1: "list_all (is_matrix 1 L) r1"
    using assms(4) by (simp_all add: xs1)
  have x2: "is_matrix 1 L x2" and r2: "list_all (is_matrix 1 L) r2"
    using assms(5) by (simp_all add: xs2)
  have len: "length r1 = length r2" using assms(6) by (simp add: xs1 xs2)
  have L1: "(1::nat) = 0 \<or> 0 < L" and L2: "(1::nat) + 1 = 0 \<or> 0 < L"
    using assms(2) by simp_all
  have x12: "is_matrix (1 + 1) L (x1 @ x2)" and r12: "list_all (is_matrix (1 + 1) L) (map2 (@) r1 r2)"
    using stacked_matrices [OF assms(4,5)] by (simp_all add: xs1 xs2)
  obtain a1 p1 where d1: "viterbi_decode cost x1 r1 = (a1, p1)"
    by (cases "viterbi_decode cost x1 r1")
  obtain a2 p2 where d2: "viterbi_decode cost x2 r2 = (a2, p2)"
    by (cases "viterbi_decode cost x2 r2")
  have v1: "crf1d_viterbi cost xs1 = Some (a1, p1)"
    using crf1d_viterbi_decode [OF assms(1) x1 r1 L1] by (simp add: xs1 d1)
  have v2: "crf1d_viterbi cost xs2 = Some (a2, p2)"
    using crf1d_viterbi_decode [OF assms(1) x2 r2 L1] by (simp add: xs2 d2)
  have "viterbi_decode cost (x1 @ x2) (map2 (@) r1 r2) = (a1 @ a2, map2 (@) p1 p2)"
    using viterbi_decode_append [OF assms(1) x1 r1 len L1] by (simp add: d1 d2)
  then have v12: "crf1d_viterbi cost (map2 (@) xs1 xs2) = Some (a1 @ a2, map2 (@) p1 p2)"
    using crf1d_viterbi_decode [OF assms(1) x12 r12 L2] by (simp add: xs1 xs2)
  \<comment> \<open>each alpha is a single row\<close>
  have shape: "is_matrix 1 L (fst (viterbi_decode cost x r))"
    if x: "is_matrix 1 L x" and r: "list_all (is_matrix 1 L) r" for x r
  proof -
    have "case viterbi_run x (replicate 1 cost) [] r of (a, c', m) \<Rightarrow>
           is_matrix 1 L a \<and> is_cube 1 L L c' \<and>
           (\<exists>new. m = [] @ new \<and> length new = length r \<and> list_all (backpointers 1 L) new)"
      using x is_cube_replicate [OF assms(1)] r L1 by (rule viterbi_run_shapes)
    moreover have "length x = 1" using x by (rule is_matrix_length)
    ultimately show ?thesis
      by (auto simp: viterbi_decode_def split: prod.splits)
  qed
  obtain ra1 where a1: "a1 = [ra1]" using shape [OF x1 r1] single_row by (auto simp: d1)
  obtain ra2 where a2: "a2 = [ra2]" using shape [OF x2 r2] single_row by (auto simp: d2)
  show ?thesis using v1 v2 v12 by (auto simp: a1 a2)
qed

section \<open>Batch items do not influence each other\<close>

text \<open>
  Claim C6. For every cost matrix and every two single-item inputs of the same length
  (emission matrices of shape \<open>(1, L)\<close>, label vectors of length 1 with entries below
  \<open>L\<close>): each of the three runs of \<^verbatim>\<open>crf1d\<close> returns, each of the three runs of
  \<^verbatim>\<open>crf1d_viterbi\<close> returns, and on the stacked input of batch size 2 the loss is the two
  single losses one after the other, \<open>alpha\<close> is the two single rows one after the other
  and the path pairs up the two single paths position by position.
\<close>

theorem batch_independence:
  assumes "is_matrix L L cost" and "xs1 \<noteq> []"
    and "list_all (is_matrix 1 L) xs1" and "list_all (is_matrix 1 L) xs2"
    and "length xs2 = length xs1" and "length ys1 = length xs1" and "length ys2 = length xs1"
    and "list_all (\<lambda>y. is_vector 1 y \<and> labels_below L y) ys1"
    and "list_all (\<lambda>y. is_vector 1 y \<and> labels_below L y) ys2"
  shows "(\<exists>l1 l2. crf1d cost xs1 ys1 = Some [l1] \<and> crf1d cost xs2 ys2 = Some [l2] \<and>
            crf1d cost (stacked xs1 xs2) (stacked ys1 ys2) = Some [l1, l2]) \<and>
         (\<exists>a1 a2 p1 p2.
            crf1d_viterbi cost xs1 = Some ([a1], p1) \<and> crf1d_viterbi cost xs2 = Some ([a2], p2) \<and>
            crf1d_viterbi cost (stacked xs1 xs2) = Some ([a1, a2], stacked p1 p2))"
proof
  show "\<exists>l1 l2. crf1d cost xs1 ys1 = Some [l1] \<and> crf1d cost xs2 ys2 = Some [l2] \<and>
            crf1d cost (stacked xs1 xs2) (stacked ys1 ys2) = Some [l1, l2]"
    unfolding stacked_def using assms by (rule crf1d_stacked)
next
  have "0 < length ys1" using assms(2,6) by simp
  then have "is_vector 1 (ys1 ! 0)" and "labels_below L (ys1 ! 0)"
    using assms(8) by (simp_all add: list_all_length)
  then have "ys1 ! 0 ! 0 < L"
    by (auto simp: is_vector_def intro: labels_belowD)
  then have L: "0 < L" by simp
  show "\<exists>a1 a2 p1 p2.
            crf1d_viterbi cost xs1 = Some ([a1], p1) \<and> crf1d_viterbi cost xs2 = Some ([a2], p2) \<and>
            crf1d_viterbi cost (stacked xs1 xs2) = Some ([a1, a2], stacked p1 p2)"
    unfolding stacked_def using assms(1) L assms(2,3,4,5) by (rule crf1d_viterbi_stacked)
qed

theorem batch_independence_witness:
  "is_matrix 2 2 [[1, 0], [0, 3::real]] \<and>
   [[[1, 2]], [[0, 0]], [[0, 5::real]]] \<noteq> [] \<and>
   list_all (is_matrix 1 2) [[[1, 2]], [[0, 0]], [[0, 5::real]]] \<and>
   list_all (is_matrix 1 2) [[[3, 1]], [[2, 2]], [[1, 1::real]]] \<and>
   list_all (\<lambda>y. is_vector 1 y \<and> labels_below 2 y) [[0], [1], [0]] \<and>
   list_all (\<lambda>y. is_vector 1 y \<and> labels_below 2 y) [[1], [1], [0]] \<and>
   stacked [[[1, 2]], [[0, 0]], [[0, 5]]] [[[3, 1]], [[2, 2]], [[1, 1::real]]]
     = [[[1, 2], [3, 1]], [[0, 0], [2, 2]], [[0, 5], [1, 1]]] \<and>
   stacked [[0], [1], [0]] [[1], [1], [0::nat]] = [[0, 1], [1, 1], [0, 0]] \<and>
   (\<exists>l1 l2.
      crf1d [[1, 0], [0, 3]] [[[1, 2]], [[0, 0]], [[0, 5]]] [[0], [1], [0]] = Some [l1] \<and>
      crf1d [[1, 0], [0, 3]] [[[3, 1]], [[2, 2]], [[1, 1]]] [[1], [1], [0]] = Some [l2] \<and>
      crf1d [[1, 0], [0, 3]] [[[1, 2], [3, 1]], [[0, 0], [2, 2]], [[0, 5], [1, 1]]]
        [[0, 1], [1, 1], [0, 0]] = Some [l1, l2]) \<and>
   crf1d_viterbi [[1, 0], [0, 3]] [[[1, 2]], [[0, 0]], [[0, 5::real]]]
     = Some ([[7, 15]], [[1], [1], [1]]) \<and>
   crf1d_viterbi [[1, 0], [0, 3]] [[[3, 1]], [[2, 2]], [[1, 1::real]]]
     = Some ([[11, 11]], [[0], [0], [0]]) \<and>
   crf1d_viterbi [[1, 0], [0, 3]] [[[1, 2], [3, 1]], [[0, 0], [2, 2]], [[0, 5], [1, 1::real]]]
     = Some ([[7, 15], [11, 11]], [[1, 0], [1, 0], [1, 0]])"
proof -
  let ?cost = "[[1, 0], [0, 3::real]]"
  let ?xs1 = "[[[1, 2]], [[0, 0]], [[0, 5::real]]]"
  let ?xs2 = "[[[3, 1]], [[2, 2]], [[1, 1::real]]]"
  let ?ys1 = "[[0], [1], [0::nat]]"
  let ?ys2 = "[[1], [1], [0::nat]]"
  have h1: "is_matrix 2 2 ?cost" by (simp add: is_matrix_def)
  have h2: "?xs1 \<noteq> []" by simp
  have h3: "list_all (is_matrix 1 2) ?xs1" by (simp add: is_matrix_def)
  have h4: "list_all (is_matrix 1 2) ?xs2" by (simp add: is_matrix_def)
  have h5: "length ?xs2 = length ?xs1" by simp
  have h6: "length ?ys1 = length ?xs1" by simp
  have h7: "length ?ys2 = length ?xs1" by simp
  have h8: "list_all (\<lambda>y. is_vector 1 y \<and> labels_below 2 y) ?ys1"
    by (simp add: is_vector_def labels_below_def)
  have h9: "list_all (\<lambda>y. is_vector 1 y \<and> labels_below 2 y) ?ys2"
    by (simp add: is_vector_def labels_below_def)
  have sx: "stacked ?xs1 ?xs2 = [[[1, 2], [3, 1]], [[0, 0], [2, 2]], [[0, 5], [1, 1]]]"
    by (simp add: stacked_def)
  have sy: "stacked ?ys1 ?ys2 = [[0, 1], [1, 1], [0, 0]]"
    by (simp add: stacked_def)
  note inst = batch_independence [OF h1 h2 h3 h4 h5 h6 h7 h8 h9]
  from inst have loss: "\<exists>l1 l2.
      crf1d ?cost ?xs1 ?ys1 = Some [l1] \<and> crf1d ?cost ?xs2 ?ys2 = Some [l2] \<and>
      crf1d ?cost [[[1, 2], [3, 1]], [[0, 0], [2, 2]], [[0, 5], [1, 1]]]
        [[0, 1], [1, 1], [0, 0]] = Some [l1, l2]"
    unfolding sx sy by (rule conjunct1)
  have v1: "crf1d_viterbi ?cost ?xs1 = Some ([[7, 15]], [[1], [1], [1]])" by code_simp
  have v2: "crf1d_viterbi ?cost ?xs2 = Some ([[11, 11]], [[0], [0], [0]])" by code_simp
  have v12: "crf1d_viterbi ?cost [[[1, 2], [3, 1]], [[0, 0], [2, 2]], [[0, 5], [1, 1::real]]]
     = Some ([[7, 15], [11, 11]], [[1, 0], [1, 0], [1, 0]])" by code_simp
  show ?thesis
    by (intro conjI h1 h2 h3 h4 h8 h9 sx sy loss v1 v2) (rule v12)
qed

end
